theory Spec2Isabelle
  imports Main "HOL-Library.Multiset" "HOL-Library.Sublist" "HOL-Library.Char_ord"
    "HOL-Library.List_Lexorder"
begin

section \<open>Port pool (lib/port_pool.py)\<close>

text \<open>
  Python's \<^verbatim>\<open>list(range(a, b))\<close>: the integers from \<open>a\<close> up to \<open>b - 1\<close>, empty when
  \<open>b \<le> a\<close>.
\<close>

definition py_range :: "int \<Rightarrow> int \<Rightarrow> int list" where
  "py_range a b = [a..b - 1]"

text \<open>
  The module-level initialisation of \<^verbatim>\<open>_port_pool\<close>. The constants \<^verbatim>\<open>BASE_PORT\<close> and
  \<^verbatim>\<open>MAX_WORKERS\<close> come from lib/config.py and are parameters here. The warnings that the
  two clamping branches log are not part of the state and are left out.
\<close>

definition port_pool :: "int \<Rightarrow> int \<Rightarrow> int list" where
  "port_pool base_port max_workers =
     (let max_port = base_port + max_workers - 1 in
      if max_port > 65535 then
        (let effective_workers = max 0 (65535 - base_port + 1) in
         if effective_workers \<le> 0 then []
         else py_range base_port (base_port + effective_workers))
      else py_range base_port (base_port + max_workers))"

text \<open>
  \<^verbatim>\<open>take_port\<close> pops the last element of the list, or returns \<^verbatim>\<open>None\<close> on an empty pool.
  The result is the returned value and the pool afterwards.
\<close>

definition take_port :: "int list \<Rightarrow> int option \<times> int list" where
  "take_port pool = (if pool = [] then (None, pool) else (Some (last pool), butlast pool))"

definition return_port :: "int list \<Rightarrow> int \<Rightarrow> int list" where
  "return_port pool port = pool @ [port]"

text \<open>\<open>n\<close> successive calls of \<^verbatim>\<open>take_port\<close>: the values returned, in order, and the pool left.\<close>

fun take_ports :: "nat \<Rightarrow> int list \<Rightarrow> int option list \<times> int list" where
  "take_ports 0 pool = ([], pool)"
| "take_ports (Suc n) pool =
     (case take_port pool of (r, pool') \<Rightarrow>
        (case take_ports n pool' of (rs, pool'') \<Rightarrow> (r # rs, pool'')))"

section \<open>Process registry and interrupted shutdown (lib/signals.py)\<close>

text \<open>
  A \<^verbatim>\<open>subprocess.Popen\<close> object compares by identity, so a handle is modelled by a number
  that names the object. \<^verbatim>\<open>active_processes\<close> is a list of (handle, port) tuples. Every
  function below runs under \<^verbatim>\<open>_active_lock\<close>, so each is one step on the list.
\<close>

type_synonym popen = nat
type_synonym active = "(popen \<times> int) list"

definition register_process :: "active \<Rightarrow> popen \<Rightarrow> int \<Rightarrow> active" where
  "register_process active_processes proc port = active_processes @ [(proc, port)]"

text \<open>
  \<^verbatim>\<open>list.remove\<close> deletes the first equal element and raises \<^verbatim>\<open>ValueError\<close> when there is
  none; the handler of the source swallows the exception.
\<close>

definition unregister_process :: "active \<Rightarrow> popen \<Rightarrow> int \<Rightarrow> active" where
  "unregister_process active_processes proc port =
     (if (proc, port) \<in> set active_processes
      then remove1 (proc, port) active_processes
      else active_processes)"

text \<open>The copy that is returned, and the list after \<^verbatim>\<open>clear()\<close>.\<close>

definition snapshot_and_clear_active :: "active \<Rightarrow> active \<times> active" where
  "snapshot_and_clear_active active_processes = (active_processes, [])"

text \<open>
  \<^verbatim>\<open>cleanup_processes\<close> kills every captured process and returns its port to the pool.
  The state is the registry and the port pool; the handles passed to
  \<^verbatim>\<open>kill_xray_process\<close>, a function of lib/xray_manager.py that is taken to return, are
  given in call order.
\<close>

fun cleanup_loop :: "active \<Rightarrow> popen list \<Rightarrow> int list \<Rightarrow> popen list \<times> int list" where
  "cleanup_loop [] killed pool = (killed, pool)"
| "cleanup_loop ((proc, port) # items) killed pool =
     cleanup_loop items (killed @ [proc]) (return_port pool port)"

definition cleanup_processes :: "active \<times> int list \<Rightarrow> popen list \<times> (active \<times> int list)" where
  "cleanup_processes st =
     (case st of (active_processes, pool) \<Rightarrow>
        (case snapshot_and_clear_active active_processes of (items, active') \<Rightarrow>
           (case cleanup_loop items [] pool of (killed, pool') \<Rightarrow> (killed, (active', pool')))))"

text \<open>A sequence of registry calls made by the workers.\<close>

datatype reg_op = Register popen int | Unregister popen int

fun reg_step :: "active \<Rightarrow> reg_op \<Rightarrow> active" where
  "reg_step a (Register proc port) = register_process a proc port"
| "reg_step a (Unregister proc port) = unregister_process a proc port"

definition reg_run :: "reg_op list \<Rightarrow> active \<Rightarrow> active" where
  "reg_run ops a = foldl reg_step a ops"

text \<open>
  The specification's reading of the active set: the pairs registered and not yet
  unregistered, counted with multiplicity. Unregistering removes one copy when there is one.
\<close>

fun spec_active :: "reg_op list \<Rightarrow> (popen \<times> int) multiset \<Rightarrow> (popen \<times> int) multiset" where
  "spec_active [] m = m"
| "spec_active (Register proc port # ops) m = spec_active ops (add_mset (proc, port) m)"
| "spec_active (Unregister proc port # ops) m = spec_active ops (m - {#(proc, port)#})"

text \<open>
  Python's \<^verbatim>\<open>str.replace(old, new)\<close>: every non-overlapping occurrence of \<open>old\<close>, from the
  left, is replaced. With an empty \<open>old\<close> Python puts \<open>new\<close> before every character and at
  the end.
\<close>

function str_replace :: "string \<Rightarrow> string \<Rightarrow> string \<Rightarrow> string" where
  "str_replace old new s =
     (if old = [] then
        (case s of [] \<Rightarrow> new | c # cs \<Rightarrow> new @ c # str_replace old new cs)
      else if s = [] then []
      else if take (length old) s = old then new @ str_replace old new (drop (length old) s)
      else hd s # str_replace old new (tl s))"
  by pat_completeness auto
termination
  by (relation "measure (\<lambda>(old, new, s). length s)") (auto simp: neq_Nil_conv)

text \<open>Python's \<^verbatim>\<open>sep.join(xs)\<close>.\<close>

fun str_join :: "string \<Rightarrow> string list \<Rightarrow> string" where
  "str_join sep [] = []"
| "str_join sep [x] = x"
| "str_join sep (x # y # ys) = x @ sep @ str_join sep (y # ys)"

text \<open>
  \<^verbatim>\<open>save_partial_results\<close> reads the globals \<^verbatim>\<open>available_keys\<close> and
  \<^verbatim>\<open>output_path_global\<close>. The result is the file written, as its path and content, or
  \<open>None\<close> when the guard fails and nothing is written. A failing \<^verbatim>\<open>open\<close> or \<^verbatim>\<open>write\<close>
  is logged by the source and is outside the model.
\<close>

definition partial_path :: "string \<Rightarrow> string" where
  "partial_path output_path_global = str_replace ''.txt'' ''_partial.txt'' output_path_global"

definition save_partial_results :: "string list \<Rightarrow> string \<Rightarrow> (string \<times> string) option" where
  "save_partial_results available_keys output_path_global =
     (if available_keys \<noteq> [] \<and> output_path_global \<noteq> [] then
        Some (partial_path output_path_global, str_join [CHR 0x0A] available_keys)
      else None)"

section \<open>Clock and timestamps (Python's datetime, as notworkers_sqlite/store.py uses it)\<close>

text \<open>
  A naive \<^verbatim>\<open>datetime\<close> as \<^verbatim>\<open>datetime.utcnow()\<close> returns it. The format of the store
  does not print the microseconds, and a difference of whole days does not change them.
\<close>

record datetime =
  year :: int
  month :: int
  day :: int
  hour :: int
  minute :: int
  second :: int
  microsecond :: int

datatype error = OverflowError

definition is_leap :: "int \<Rightarrow> bool" where
  "is_leap y = (y mod 4 = 0 \<and> (y mod 100 \<noteq> 0 \<or> y mod 400 = 0))"

definition days_before_year :: "int \<Rightarrow> int" where
  "days_before_year y' = (let y = y' - 1 in y * 365 + y div 4 - y div 100 + y div 400)"

text \<open>The tables of the library, for the months 1 to 12.\<close>

definition days_in_month_tab :: "int list" where
  "days_in_month_tab = [31, 28, 31, 30, 31, 30, 31, 31, 30, 31, 30, 31]"

definition days_before_month_tab :: "int list" where
  "days_before_month_tab = [0, 31, 59, 90, 120, 151, 181, 212, 243, 273, 304, 334]"

definition days_in_month :: "int \<Rightarrow> int \<Rightarrow> int" where
  "days_in_month y m = (if m = 2 \<and> is_leap y then 29 else days_in_month_tab ! nat (m - 1))"

definition days_before_month :: "int \<Rightarrow> int \<Rightarrow> int" where
  "days_before_month y m =
     days_before_month_tab ! nat (m - 1) + (if m > 2 \<and> is_leap y then 1 else 0)"

definition ymd2ord :: "int \<Rightarrow> int \<Rightarrow> int \<Rightarrow> int" where
  "ymd2ord y m d = days_before_year y + days_before_month y m + d"

text \<open>The proleptic Gregorian ordinal of the date: 0001-01-01 is day 1.\<close>

definition toordinal :: "datetime \<Rightarrow> int" where
  "toordinal dt = ymd2ord (year dt) (month dt) (day dt)"

text \<open>The inverse, written as the library writes it: 400-, 100-, 4- and 1-year cycles.\<close>

definition ord2ymd :: "int \<Rightarrow> int \<times> int \<times> int" where
  "ord2ymd n' =
     (let n = n' - 1;
          n400 = n div 146097; n = n mod 146097;
          n100 = n div 36524; n = n mod 36524;
          n4 = n div 1461; n = n mod 1461;
          n1 = n div 365; n = n mod 365;
          y = n400 * 400 + 1 + n100 * 100 + n4 * 4 + n1
      in if n1 = 4 \<or> n100 = 4 then (y - 1, 12, 31)
         else
           (let leapyear = (n1 = 3 \<and> (n4 \<noteq> 24 \<or> n100 = 3));
                m = (n + 50) div 32;
                preceding = days_before_month_tab ! nat (m - 1)
                              + (if m > 2 \<and> leapyear then 1 else 0);
                m' = (if preceding > n then m - 1 else m);
                preceding' =
                  (if preceding > n
                   then preceding
                          - (days_in_month_tab ! nat (m' - 1)
                               + (if m' = 2 \<and> leapyear then 1 else 0))
                   else preceding)
            in (y, m', n - preceding' + 1)))"

text \<open>
  \<^verbatim>\<open>dt - timedelta(days=n)\<close>. The constructor of \<^verbatim>\<open>timedelta\<close> raises
  \<^verbatim>\<open>OverflowError\<close> beyond 999999999 days, and the subtraction raises it when the
  resulting date leaves the years 1 to 9999 (ordinals 1 to 3652059). The time of day is kept.
\<close>

definition sub_days :: "datetime \<Rightarrow> int \<Rightarrow> error + datetime" where
  "sub_days dt n =
     (if \<bar>n\<bar> > 999999999 then Inl OverflowError
      else
        (let d = toordinal dt - n in
         if 0 < d \<and> d \<le> 3652059 then
           (case ord2ymd d of (y, m, dd) \<Rightarrow> Inr (dt\<lparr>year := y, month := m, day := dd\<rparr>))
         else Inl OverflowError))"

text \<open>Decimal digits of a natural number, and the two-digit field \<^verbatim>\<open>%02d\<close>.\<close>

function dec :: "nat \<Rightarrow> string" where
  "dec n = (if n < 10 then [''0123456789'' ! n] else dec (n div 10) @ [''0123456789'' ! (n mod 10)])"
  by pat_completeness auto
termination
  by (relation "measure id") auto

definition dec2 :: "int \<Rightarrow> string" where
  "dec2 i = (if i < 10 then CHR ''0'' # dec (nat i) else dec (nat i))"

text \<open>
  \<^verbatim>\<open>strftime("%Y-%m-%dT%H:%M:%SZ")\<close>. The C library prints the year without padding, so
  the year has four digits from the year 1000 on.
\<close>

definition strftime :: "datetime \<Rightarrow> string" where
  "strftime dt =
     dec (nat (year dt)) @ ''-'' @ dec2 (month dt) @ ''-'' @ dec2 (day dt) @ ''T''
       @ dec2 (hour dt) @ '':'' @ dec2 (minute dt) @ '':'' @ dec2 (second dt) @ ''Z''"

text \<open>\<^verbatim>\<open>_utc_now_str\<close>, given the reading of the clock.\<close>

definition utc_now_str :: "datetime \<Rightarrow> string" where
  "utc_now_str now = strftime now"

section \<open>Blacklist store (notworkers_sqlite/store.py)\<close>

text \<open>
  A row of the table \<^verbatim>\<open>notworkers\<close>. Timestamps are TEXT and SQLite compares them byte by
  byte, which is the lexicographic order on \<open>string\<close>. The column \<^verbatim>\<open>id\<close> is
  \<^verbatim>\<open>INTEGER PRIMARY KEY AUTOINCREMENT\<close>: it grows with every insert and is never reused,
  so the table is the list of its rows in id order and the position of a row stands for
  its id. \<^verbatim>\<open>source\<close> is the only nullable column. \<^verbatim>\<open>fail_count\<close> is the numeric
  value of the column, an INTEGER of 64 bits as long as it fits.
\<close>

record notworker =
  key :: string
  raw :: string
  first_seen :: string
  last_seen :: string
  fail_count :: int
  source :: "string option"

type_synonym conn = "notworker list"

text \<open>
  The database file may be missing (\<open>None\<close>). \<^verbatim>\<open>init_db\<close> creates the file and the table
  when needed and returns the connection.
\<close>

definition init_db :: "conn option \<Rightarrow> conn" where
  "init_db db = (case db of None \<Rightarrow> [] | Some conn \<Rightarrow> conn)"

text \<open>
  \<^verbatim>\<open>fail_count + 1\<close> in SQLite, on the numeric value of the column. 64-bit integers
  are added exactly. The sum 9223372036854775808 no longer fits: it is computed and stored
  as the REAL 9.223372036854776e18, and adding 1 to a REAL of that size gives the same REAL.
\<close>

definition sqlite_add1 :: "int \<Rightarrow> int" where
  "sqlite_add1 n = (if n < 9223372036854775808 then n + 1 else n)"

text \<open>
  \<^verbatim>\<open>upsert_notworker\<close>: \<open>now\<close> is what the clock shows if the function reads it. The
  INSERT appends a row; on a conflict on the UNIQUE column \<^verbatim>\<open>key\<close> the existing row is
  updated in place. \<^verbatim>\<open>COALESCE(excluded.source, notworkers.source)\<close> keeps the old
  source when the new one is NULL.
\<close>

definition upsert_notworker ::
  "datetime \<Rightarrow> conn \<Rightarrow> string \<Rightarrow> string \<Rightarrow> string option \<Rightarrow> string option \<Rightarrow> conn" where
  "upsert_notworker now conn k rw src seen_at =
     (if k = [] then conn
      else
        (let seen = (case seen_at of None \<Rightarrow> utc_now_str now | Some s \<Rightarrow> s) in
         if k \<in> set (map key conn) then
           map (\<lambda>r. if key r = k
                     then r\<lparr>raw := rw, last_seen := seen,
                            fail_count := sqlite_add1 (fail_count r),
                            source := (case src of None \<Rightarrow> source r | Some s \<Rightarrow> Some s)\<rparr>
                     else r) conn
         else conn @ [\<lparr>key = k, raw = rw, first_seen = seen, last_seen = seen,
                        fail_count = 1, source = src\<rparr>]))"

definition is_notworker :: "conn \<Rightarrow> string \<Rightarrow> bool" where
  "is_notworker conn k = (if k = [] then False else k \<in> set (map key conn))"

text \<open>
  \<^verbatim>\<open>expire_old\<close>: the table afterwards and \<^verbatim>\<open>cur.rowcount\<close>, or the exception of the
  date arithmetic, which is raised before the DELETE runs.
\<close>

definition expire_old :: "datetime \<Rightarrow> conn \<Rightarrow> int \<Rightarrow> error + (conn \<times> int)" where
  "expire_old now conn max_age_days =
     (if max_age_days \<le> 0 then Inr (conn, 0)
      else
        (case sub_days now max_age_days of
           Inl e \<Rightarrow> Inl e
         | Inr cutoff \<Rightarrow>
             (let cutoff_str = strftime cutoff in
              Inr (filter (\<lambda>r. \<not> last_seen r < cutoff_str) conn,
                   int (length (filter (\<lambda>r. last_seen r < cutoff_str) conn))))))"

text \<open>
  \<^verbatim>\<open>prune_to_max\<close>. The subquery \<^verbatim>\<open>SELECT id ... ORDER BY last_seen ASC LIMIT ?\<close> picks
  the positions of the rows to delete; rows with the same \<^verbatim>\<open>last_seen\<close> are taken in id
  order, as a scan of the index on \<^verbatim>\<open>last_seen\<close> gives them.
\<close>

definition prune_ids :: "conn \<Rightarrow> nat \<Rightarrow> nat list" where
  "prune_ids conn to_delete =
     take to_delete (sort_key (\<lambda>i. last_seen (conn ! i)) [0..<length conn])"

definition prune_to_max :: "conn \<Rightarrow> int \<Rightarrow> conn \<times> int" where
  "prune_to_max conn max_rows =
     (if max_rows \<le> 0 then (conn, 0)
      else
        (let total = int (length conn) in
         if total \<le> max_rows then (conn, 0)
         else
           (let to_delete = total - max_rows;
                ids = prune_ids conn (nat to_delete)
            in (map (\<lambda>i. conn ! i) (filter (\<lambda>i. i \<notin> set ids) [0..<length conn]),
                int (length (filter (\<lambda>i. i \<in> set ids) [0..<length conn]))))))"

text \<open>
  \<^verbatim>\<open>migrate_from_flat\<close>. The parser \<^verbatim>\<open>load_notworkers_with_lines\<close> belongs to
  lib/parsing.py, outside the store; its result \<^verbatim>\<open>normalized_to_full\<close>, a dict from a
  normalized key to the full line, is the input, as the list of its items in insertion
  order (\<open>None\<close> when the flat file does not exist). The loop reads the clock once per
  upsert: \<open>clock i\<close> is the reading in iteration \<open>i\<close>.
\<close>

fun migrate_loop ::
  "(nat \<Rightarrow> datetime) \<Rightarrow> nat \<Rightarrow> string \<Rightarrow> (string \<times> string) list \<Rightarrow> conn \<Rightarrow> int \<Rightarrow> int
     \<Rightarrow> conn \<times> int \<times> int" where
  "migrate_loop clock i src [] conn inserted updated = (conn, inserted, updated)"
| "migrate_loop clock i src ((norm, full) # items) conn inserted updated =
     (let exists = norm \<in> set (map key conn);
          conn' = upsert_notworker (clock i) conn norm full (Some src) None
      in if exists then migrate_loop clock (Suc i) src items conn' inserted (updated + 1)
         else migrate_loop clock (Suc i) src items conn' (inserted + 1) updated)"

definition migrate_from_flat ::
  "(nat \<Rightarrow> datetime) \<Rightarrow> (string \<times> string) list option \<Rightarrow> conn option \<Rightarrow> string
     \<Rightarrow> conn option \<times> (int \<times> int)" where
  "migrate_from_flat clock flat db src =
     (case flat of
        None \<Rightarrow> (db, (0, 0))
      | Some normalized_to_full \<Rightarrow>
          if normalized_to_full = [] then (db, (0, 0))
          else
            (case migrate_loop clock 0 src normalized_to_full (init_db db) 0 0 of
               (conn, inserted, updated) \<Rightarrow> (Some conn, (inserted, updated))))"



section \<open>Notions used by the statements\<close>

text \<open>
  The specification's sidecar path: the marker \<^verbatim>\<open>-partial\<close> goes before the extension,
  which starts at the last dot of the path; a path with no dot gets the marker at its end.
\<close>

definition spec_partial_path :: "string \<Rightarrow> string" where
  "spec_partial_path p =
     (if CHR ''.'' \<in> set p then
        (let ext = rev (takeWhile (\<lambda>c. c \<noteq> CHR ''.'') (rev p))
         in take (length p - length ext - 1) p @ ''-partial'' @ ''.'' @ ext)
      else p @ ''-partial'')"

text \<open>The lines of a text, as Python's \<^verbatim>\<open>text.split("\n")\<close> gives them.\<close>

fun split_lines :: "string \<Rightarrow> string list" where
  "split_lines [] = [[]]"
| "split_lines (c # cs) =
     (if c = CHR 0x0A then [] # split_lines cs
      else (case split_lines cs of [] \<Rightarrow> [[c]] | l # ls \<Rightarrow> (c # l) # ls))"


text \<open>
  The invariant of the store: keys are unique, no entry was last seen before it was first
  seen, and every failure count is at least 1.
\<close>

definition store_inv :: "conn \<Rightarrow> bool" where
  "store_inv conn =
     (distinct (map key conn)
      \<and> (\<forall>r\<in>set conn. first_seen r \<le> last_seen r \<and> 1 \<le> fail_count r))"

text \<open>Its two parts: the part about keys and counts, and the part about the timestamps.\<close>

definition key_inv :: "conn \<Rightarrow> bool" where
  "key_inv conn = (distinct (map key conn) \<and> (\<forall>r\<in>set conn. 1 \<le> fail_count r))"

definition time_inv :: "conn \<Rightarrow> bool" where
  "time_inv conn = (\<forall>r\<in>set conn. first_seen r \<le> last_seen r)"

text \<open>
  The mutating operations of the store, and one step of each on an open connection. An
  \<^verbatim>\<open>expire_old\<close> that raises leaves the table as it was. The command line runs the
  migration with the default source \<^verbatim>\<open>"flat"\<close>.
\<close>

datatype store_op =
    Upsert string string "string option" "string option"
  | Expire int
  | Prune int
  | Migrate "(string \<times> string) list option"

fun store_step :: "(nat \<Rightarrow> datetime) \<Rightarrow> conn \<Rightarrow> store_op \<Rightarrow> conn" where
  "store_step clock conn (Upsert k rw src seen_at) =
     upsert_notworker (clock 0) conn k rw src seen_at"
| "store_step clock conn (Expire max_age_days) =
     (case expire_old (clock 0) conn max_age_days of
        Inl e \<Rightarrow> conn
      | Inr (conn', n) \<Rightarrow> conn')"
| "store_step clock conn (Prune max_rows) = fst (prune_to_max conn max_rows)"
| "store_step clock conn (Migrate flat) =
     init_db (fst (migrate_from_flat clock flat (Some conn) ''flat''))"

text \<open>
  A run of operations, each with the clock it reads, from a given table on. The states
  reachable in the store are the runs from the empty table.
\<close>

definition store_run :: "((nat \<Rightarrow> datetime) \<times> store_op) list \<Rightarrow> conn \<Rightarrow> conn" where
  "store_run steps conn = foldl (\<lambda>c (clock, op). store_step clock c op) conn steps"

text \<open>
  The observation times an operation writes, each with the key it is written for, and the
  condition that none of them is earlier than the \<^verbatim>\<open>first_seen\<close> of the entry it updates.
  The items of a migration come from a dict, so their keys are distinct.
\<close>

fun op_stamps :: "(nat \<Rightarrow> datetime) \<Rightarrow> store_op \<Rightarrow> (string \<times> string) list" where
  "op_stamps clock (Upsert k rw src seen_at) =
     [(k, case seen_at of None \<Rightarrow> utc_now_str (clock 0) | Some s \<Rightarrow> s)]"
| "op_stamps clock (Migrate (Some items)) =
     map (\<lambda>i. (fst (items ! i), utc_now_str (clock i))) [0..<length items]"
| "op_stamps clock (Migrate None) = []"
| "op_stamps clock (Expire max_age_days) = []"
| "op_stamps clock (Prune max_rows) = []"

definition stamps_ok :: "(nat \<Rightarrow> datetime) \<Rightarrow> conn \<Rightarrow> store_op \<Rightarrow> bool" where
  "stamps_ok clock conn op =
     (\<forall>(k, t)\<in>set (op_stamps clock op). \<forall>r\<in>set conn. key r = k \<longrightarrow> first_seen r \<le> t)"

fun op_wf :: "store_op \<Rightarrow> bool" where
  "op_wf (Migrate (Some items)) = distinct (map fst items)"
| "op_wf (Migrate None) = True"
| "op_wf (Upsert k rw src seen_at) = True"
| "op_wf (Expire max_age_days) = True"
| "op_wf (Prune max_rows) = True"

text \<open>
  The order of two datetimes down to the second, field by field as Python compares them:
  the first lies in an earlier second than the other. The microseconds, which the store
  does not keep, play no part. And the datetimes that the format of the store prints in
  fixed width: a year of four digits and the other fields in their ranges.
\<close>

definition second_before :: "datetime \<Rightarrow> datetime \<Rightarrow> bool" where
  "second_before a b =
     (year a < year b \<or> year a = year b \<and>
       (month a < month b \<or> month a = month b \<and>
         (day a < day b \<or> day a = day b \<and>
           (hour a < hour b \<or> hour a = hour b \<and>
             (minute a < minute b \<or> minute a = minute b \<and> second a < second b)))))"

definition fixed_width :: "datetime \<Rightarrow> bool" where
  "fixed_width dt =
     (1000 \<le> year dt \<and> year dt \<le> 9999 \<and> 1 \<le> month dt \<and> month dt \<le> 12
      \<and> 1 \<le> day dt \<and> day dt \<le> 31 \<and> 0 \<le> hour dt \<and> hour dt \<le> 23
      \<and> 0 \<le> minute dt \<and> minute dt \<le> 59 \<and> 0 \<le> second dt \<and> second dt \<le> 59)"

text \<open>A time of day as the clock gives it.\<close>

definition valid_time :: "datetime \<Rightarrow> bool" where
  "valid_time dt =
     (0 \<le> hour dt \<and> hour dt \<le> 23 \<and> 0 \<le> minute dt \<and> minute dt \<le> 59
      \<and> 0 \<le> second dt \<and> second dt \<le> 59
      \<and> 0 \<le> microsecond dt \<and> microsecond dt \<le> 999999)"

text \<open>Values for the examples: two readings of the clock and a row seen once.\<close>

definition now_a :: datetime where
  "now_a = \<lparr>year = 2026, month = 11, day = 4, hour = 12, minute = 0, second = 0,
             microsecond = 250000\<rparr>"

definition now_b :: datetime where
  "now_b = \<lparr>year = 2026, month = 11, day = 5, hour = 9, minute = 30, second = 15,
             microsecond = 0\<rparr>"

definition row_at :: "string \<Rightarrow> string \<Rightarrow> notworker" where
  "row_at k t =
     \<lparr>key = k, raw = k, first_seen = t, last_seen = t, fail_count = 1, source = None\<rparr>"

section \<open>Properties of the port pool\<close>

declare str_replace.simps [simp del]
declare dec.simps [simp del]

lemma port_pool_upto: "port_pool b w = [b..min (b + w - 1) 65535]"
  by (auto simp: port_pool_def py_range_def Let_def)

text \<open>
  C4: for every base port and worker capacity the pool starts with exactly the ports of
  the range from the base to base + capacity - 1, cut off at 65535, in ascending order and
  without repetition. Its length, the effective capacity, is the capacity reduced to fit,
  and 0 when the range is empty; a base above 65535 gives the empty pool. Base 65530 with
  capacity 10 gives the six ports 65530 to 65535.
\<close>

theorem port_pool_clamped:
  "port_pool base_port max_workers = [base_port..min (base_port + max_workers - 1) 65535]
   \<and> set (port_pool base_port max_workers)
       = {p. base_port \<le> p \<and> p \<le> base_port + max_workers - 1 \<and> p \<le> 65535}
   \<and> distinct (port_pool base_port max_workers)
   \<and> int (length (port_pool base_port max_workers))
       = max 0 (min max_workers (65535 - base_port + 1))
   \<and> (65535 < base_port \<longrightarrow> port_pool base_port max_workers = [])
   \<and> port_pool 65530 10 = [65530, 65531, 65532, 65533, 65534, 65535]"
proof -
  have ex: "port_pool 65530 10 = [65530, 65531, 65532, 65533, 65534, 65535]"
    by code_simp
  have len: "int (length (port_pool base_port max_workers))
       = max 0 (min max_workers (65535 - base_port + 1))"
    by (auto simp: port_pool_upto)
  have st: "set (port_pool base_port max_workers)
       = {p. base_port \<le> p \<and> p \<le> base_port + max_workers - 1 \<and> p \<le> 65535}"
    by (auto simp: port_pool_upto)
  show ?thesis using ex len st by (simp add: port_pool_upto)
qed

theorem port_pool_clamped_witness:
  "(65535::int) < 70000 \<and> port_pool 70000 5 = [] \<and> port_pool 65534 5 = [65534, 65535]
   \<and> port_pool 10808 3 = [10808, 10809, 10810]"
  using port_pool_clamped [of 70000 5] port_pool_clamped [of 65534 5]
    port_pool_clamped [of 10808 3]
  by (simp add: upto_rec1)

lemma take_ports_empty: "take_ports m [] = (replicate m None, [])"
  by (induction m) (simp_all add: take_port_def)

lemma take_ports_more:
  "take_ports (length pool + m) pool = (map Some (rev pool) @ replicate m None, [])"
proof (induction pool rule: rev_induct)
  case Nil
  then show ?case by (simp add: take_ports_empty)
next
  case (snoc x xs)
  then show ?case by (simp add: take_port_def)
qed

text \<open>
  C8: from a pool of N ports, N takes succeed (they return the ports, last one first) and
  the take after them returns \<open>None\<close>, with no exception; after one
  \<^verbatim>\<open>return_port\<close> exactly one more take succeeds, with the port given back, and the
  next take returns \<open>None\<close> again.
\<close>

theorem pool_exhaustion:
  "take_ports (Suc (length pool)) pool = (map Some (rev pool) @ [None], [])
   \<and> take_ports 2 (return_port (snd (take_ports (Suc (length pool)) pool)) port)
       = ([Some port, None], [])"
proof -
  have a: "take_ports (Suc (length pool)) pool = (map Some (rev pool) @ [None], [])"
    using take_ports_more [of pool 1] by simp
  have b: "take_ports 2 (return_port [] port) = ([Some port, None], [])"
    using take_ports_more [of "[port]" 1] by (simp add: return_port_def numeral_2_eq_2)
  show ?thesis unfolding a using b by simp
qed

theorem pool_exhaustion_witness:
  "take_ports 4 (port_pool 10808 3) = ([Some 10810, Some 10809, Some 10808, None], [])
   \<and> take_ports 2 (return_port [] 10809) = ([Some 10809, None], [])"
proof -
  have p: "port_pool 10808 3 = [10808, 10809, 10810]"
    by (simp add: port_pool_def py_range_def upto_rec1)
  have n: "Suc (length [10808, 10809, 10810 :: int]) = 4"
    by simp
  show ?thesis
    using pool_exhaustion [of "[10808, 10809, 10810]" 10809] unfolding p n
    by (simp add: take_port_def return_port_def eval_nat_numeral)
qed

section \<open>Properties of the process registry\<close>

lemma mset_reg_run: "mset (reg_run ops a) = spec_active ops (mset a)"
  unfolding reg_run_def
proof (induction ops arbitrary: a)
  case Nil
  then show ?case by simp
next
  case (Cons x ops)
  then show ?case by (cases x) (auto simp: register_process_def unregister_process_def)
qed

lemma cleanup_loop_eq:
  "cleanup_loop items killed pool = (killed @ map fst items, pool @ map snd items)"
  by (induction items killed pool rule: cleanup_loop.induct) (auto simp: return_port_def)

text \<open>
  C1: after any sequence of register and unregister calls, the drain returns exactly the
  pairs registered and not yet unregistered and leaves the registry empty, in one step.
  Unregistering a pair that is absent, a drained one included, changes nothing. The
  cleanup kills each captured process once and returns each captured port once; a second
  cleanup, as the exit hook runs it after the signal handler, finds nothing to do.
\<close>

theorem registry_drain_once:
  "mset (fst (snapshot_and_clear_active (reg_run ops []))) = spec_active ops {#}
   \<and> snapshot_and_clear_active a = (a, [])
   \<and> ((proc, port) \<notin> set a \<longrightarrow> unregister_process a proc port = a)
   \<and> unregister_process (snd (snapshot_and_clear_active a)) proc port = []
   \<and> cleanup_processes (a, pool) = (map fst a, ([], pool @ map snd a))
   \<and> cleanup_processes (snd (cleanup_processes (a, pool))) = ([], ([], pool @ map snd a))"
proof -
  have "mset (reg_run ops []) = spec_active ops {#}"
    using mset_reg_run [of ops "[]"] by simp
  then show ?thesis
    by (simp add: snapshot_and_clear_active_def unregister_process_def cleanup_processes_def
        cleanup_loop_eq)
qed

theorem registry_drain_once_witness:
  "(7::nat, 10810::int) \<notin> set [(3, 10808), (5, 10809)]
   \<and> unregister_process [(3, 10808), (5, 10809)] 7 10810 = [(3, 10808), (5, 10809)]
   \<and> snapshot_and_clear_active
        (reg_run [Register 3 10808, Register 4 10810, Unregister 4 10810, Register 5 10809] [])
       = ([(3, 10808), (5, 10809)], [])
   \<and> cleanup_processes ([(3, 10808), (5, 10809)], [10810])
       = ([3, 5], ([], [10810, 10808, 10809]))"
  using registry_drain_once
    [of "[Register 3 10808, Register 4 10810, Unregister 4 10810, Register 5 10809]"
        "[(3, 10808), (5, 10809)]" 7 10810 "[10810]"]
  by (simp add: reg_run_def register_process_def unregister_process_def
      snapshot_and_clear_active_def)

section \<open>Properties of the partial-results file\<close>

lemma str_replace_Nil: "old \<noteq> [] \<Longrightarrow> str_replace old new [] = []"
  by (simp add: str_replace.simps)

lemma str_replace_hit:
  "old \<noteq> [] \<Longrightarrow> str_replace old new (old @ s) = new @ str_replace old new s"
  by (subst str_replace.simps) simp

lemma str_replace_miss:
  "old \<noteq> [] \<Longrightarrow> take (length old) (c # s) \<noteq> old \<Longrightarrow>
   str_replace old new (c # s) = c # str_replace old new s"
  by (subst str_replace.simps) simp

lemma str_replace_stem:
  assumes "old \<noteq> []"
    and "\<forall>i<length stem. take (length old) (drop i (stem @ old)) \<noteq> old"
  shows "str_replace old new (stem @ old) = stem @ new"
  using assms(2)
proof (induction stem)
  case Nil
  show ?case using str_replace_hit [OF assms(1), of new "[]"] assms(1)
    by (simp add: str_replace_Nil)
next
  case (Cons c stem)
  have miss: "take (length old) (c # stem @ old) \<noteq> old"
    using Cons.prems by force
  have "\<forall>i<length stem. take (length old) (drop i (stem @ old)) \<noteq> old"
  proof (intro allI impI)
    fix i assume "i < length stem"
    then have "Suc i < length (c # stem)" by simp
    with Cons.prems have "take (length old) (drop (Suc i) ((c # stem) @ old)) \<noteq> old"
      by blast
    then show "take (length old) (drop i (stem @ old)) \<noteq> old" by simp
  qed
  with Cons.IH have "str_replace old new (stem @ old) = stem @ new" by simp
  with str_replace_miss [OF assms(1) miss] show ?case by simp
qed

lemma split_lines_no_newline: "CHR 0x0A \<notin> set k \<Longrightarrow> split_lines (k @ CHR 0x0A # t) = k # split_lines t"
  by (induction k) auto

lemma split_lines_single: "CHR 0x0A \<notin> set k \<Longrightarrow> split_lines k = [k]"
  by (induction k) auto

lemma split_lines_join:
  "ks \<noteq> [] \<Longrightarrow> \<forall>k\<in>set ks. CHR 0x0A \<notin> set k \<Longrightarrow> split_lines (str_join [CHR 0x0A] ks) = ks"
proof (induction "[CHR 0x0A]" ks rule: str_join.induct)
  case 1
  then show ?case by simp
next
  case (2 x)
  then show ?case by (simp add: split_lines_single)
next
  case (3 x y ys)
  then show ?case by (simp add: split_lines_no_newline)
qed

text \<open>
  C3, as amended: the file is written only when there are results and an output path, and
  its content is the descriptors joined by newlines: when no descriptor holds a newline,
  the lines of the file are exactly the descriptors, one per line. For an output path
  that ends in \<^verbatim>\<open>.txt\<close> and has no other occurrence of \<^verbatim>\<open>.txt\<close>, the path of the file is
  the output path with \<^verbatim>\<open>_partial\<close> put before that extension.
\<close>

theorem partial_results_sidecar:
  "(available_keys \<noteq> [] \<and> output_path_global \<noteq> [] \<longrightarrow>
      save_partial_results available_keys output_path_global
        = Some (partial_path output_path_global, str_join [CHR 0x0A] available_keys))
   \<and> ((\<forall>i<length stem. take 4 (drop i (stem @ ''.txt'')) \<noteq> ''.txt'') \<longrightarrow>
        partial_path (stem @ ''.txt'') = stem @ ''_partial.txt'')
   \<and> (available_keys \<noteq> [] \<and> (\<forall>i<length stem. take 4 (drop i (stem @ ''.txt'')) \<noteq> ''.txt'') \<longrightarrow>
        save_partial_results available_keys (stem @ ''.txt'')
          = Some (stem @ ''_partial.txt'', str_join [CHR 0x0A] available_keys))
   \<and> (available_keys \<noteq> [] \<and> (\<forall>k\<in>set available_keys. CHR 0x0A \<notin> set k) \<longrightarrow>
        split_lines (str_join [CHR 0x0A] available_keys) = available_keys)
   \<and> save_partial_results [] output_path_global = None
   \<and> save_partial_results available_keys [] = None"
proof -
  have len: "length ''.txt'' = 4"
    by simp
  have "partial_path (stem @ ''.txt'') = stem @ ''_partial.txt''"
    if h: "\<forall>i<length stem. take 4 (drop i (stem @ ''.txt'')) \<noteq> ''.txt''"
    unfolding partial_path_def
  proof (rule str_replace_stem)
    show "''.txt'' \<noteq> []" by simp
    show "\<forall>i<length stem. take (length ''.txt'') (drop i (stem @ ''.txt'')) \<noteq> ''.txt''"
      unfolding len by (rule h)
  qed
  then show ?thesis
    by (auto simp: save_partial_results_def split_lines_join)
qed

theorem partial_results_sidecar_witness:
  "[''vless://a'', ''vless://b''] \<noteq> []
   \<and> save_partial_results [''vless://a'', ''vless://b''] ''out/available.txt''
       = Some (''out/available_partial.txt'', ''vless://a'' @ [CHR 0x0A] @ ''vless://b'')
   \<and> split_lines (''vless://a'' @ [CHR 0x0A] @ ''vless://b'') = [''vless://a'', ''vless://b'']"
proof -
  have occ: "\<forall>i<length ''out/available''. take 4 (drop i (''out/available'' @ ''.txt'')) \<noteq> ''.txt''"
    by (simp add: All_less_Suc2 del: All_less_Suc)
  have nl: "\<forall>k\<in>set [''vless://a'', ''vless://b'']. CHR 0x0A \<notin> set k"
    by simp
  show ?thesis
    using partial_results_sidecar [of "[''vless://a'', ''vless://b'']" "''out/available.txt''"
        "''out/available''"] occ nl
    by simp
qed

text \<open>
  The claim as it was stated fails: the marker of the source is \<^verbatim>\<open>_partial\<close>, not
  \<^verbatim>\<open>-partial\<close>, and a path without \<^verbatim>\<open>.txt\<close> gets no marker at all. A descriptor that
  holds a newline is written as it is and takes two lines of the file.
\<close>

theorem partial_path_counterexample:
  "partial_path ''results.txt'' = ''results_partial.txt''
   \<and> spec_partial_path ''results.txt'' = ''results-partial.txt''
   \<and> partial_path ''results.txt'' \<noteq> spec_partial_path ''results.txt''
   \<and> partial_path ''results.log'' = ''results.log''
   \<and> save_partial_results [''a'' @ [CHR 0x0A] @ ''b''] ''results.txt''
       = Some (''results_partial.txt'', ''a'' @ [CHR 0x0A] @ ''b'')
   \<and> split_lines (''a'' @ [CHR 0x0A] @ ''b'') = [''a'', ''b'']"
  by code_simp

section \<open>Properties of the blacklist store\<close>

text \<open>
  C10: for every store, \<^verbatim>\<open>is_notworker\<close> with the empty key is \<open>False\<close>, whatever the table
  holds; the function returns only the boolean and has no store to change. An upsert with
  the empty key leaves the store as it is, so it cannot make the empty key present.
\<close>

theorem contains_empty_key:
  "is_notworker conn [] = False
   \<and> upsert_notworker now conn [] rw src seen_at = conn
   \<and> \<not> is_notworker (upsert_notworker now conn [] rw src seen_at) []"
  by (simp add: is_notworker_def upsert_notworker_def)

theorem contains_empty_key_witness:
  "is_notworker
     [\<lparr>key = [], raw = ''x'', first_seen = ''2026-01-01T00:00:00Z'',
       last_seen = ''2026-01-01T00:00:00Z'', fail_count = 1, source = None\<rparr>] [] = False"
  using contains_empty_key
    [of "[\<lparr>key = [], raw = ''x'', first_seen = ''2026-01-01T00:00:00Z'',
           last_seen = ''2026-01-01T00:00:00Z'', fail_count = 1, source = None\<rparr>]"]
  by simp

lemma upsert_absent:
  "k \<noteq> [] \<Longrightarrow> k \<notin> set (map key conn) \<Longrightarrow>
   upsert_notworker now conn k rw src seen_at =
     conn @ [\<lparr>key = k, raw = rw,
               first_seen = (case seen_at of None \<Rightarrow> utc_now_str now | Some s \<Rightarrow> s),
               last_seen = (case seen_at of None \<Rightarrow> utc_now_str now | Some s \<Rightarrow> s),
               fail_count = 1, source = src\<rparr>]"
  by (simp add: upsert_notworker_def Let_def)

lemma map_upd_other:
  "k \<notin> set (map key xs) \<Longrightarrow> map (\<lambda>r. if key r = k then f r else r) xs = xs"
  by (induction xs) auto

lemma upsert_present:
  "k \<noteq> [] \<Longrightarrow> key r = k \<Longrightarrow> k \<notin> set (map key pre) \<Longrightarrow> k \<notin> set (map key post) \<Longrightarrow>
   upsert_notworker now (pre @ r # post) k rw src seen_at =
     pre @ r\<lparr>raw := rw,
              last_seen := (case seen_at of None \<Rightarrow> utc_now_str now | Some s \<Rightarrow> s),
              fail_count := sqlite_add1 (fail_count r),
              source := (case src of None \<Rightarrow> source r | Some s \<Rightarrow> Some s)\<rparr> # post"
  by (simp add: upsert_notworker_def Let_def map_upd_other)

lemma sqlite_add1_ge: "n \<le> sqlite_add1 n"
  by (simp add: sqlite_add1_def)

text \<open>
  C2, as amended: an upsert with the empty key changes nothing. For a key that is absent it
  appends one entry with the given raw and source, \<^verbatim>\<open>fail_count\<close> 1 and both timestamps
  equal to the observation time, which is the clock's reading in the format of the store
  when none is given. For a key that is present it replaces raw, sets \<^verbatim>\<open>last_seen\<close> to the
  observation time, overwrites the source only by a supplied value, and leaves the key,
  \<^verbatim>\<open>first_seen\<close> and every other entry as they were; it adds exactly 1 to \<^verbatim>\<open>fail_count\<close>
  as long as that is below 9223372036854775808, and leaves it as it is from there on.
  Three upserts of an absent key with the raws a, b, c leave one entry for it, with raw c
  and \<^verbatim>\<open>fail_count\<close> 3.
\<close>

theorem upsert_cases:
  "upsert_notworker now conn [] rw src seen_at = conn
   \<and> (k \<noteq> [] \<and> k \<notin> set (map key conn) \<longrightarrow>
        upsert_notworker now conn k rw src seen_at =
          conn @ [\<lparr>key = k, raw = rw,
                    first_seen = (case seen_at of None \<Rightarrow> strftime now | Some s \<Rightarrow> s),
                    last_seen = (case seen_at of None \<Rightarrow> strftime now | Some s \<Rightarrow> s),
                    fail_count = 1, source = src\<rparr>])
   \<and> (k \<noteq> [] \<and> key r = k \<and> k \<notin> set (map key pre) \<and> k \<notin> set (map key post)
        \<and> fail_count r < 9223372036854775808 \<longrightarrow>
        upsert_notworker now (pre @ r # post) k rw src seen_at =
          pre @ r\<lparr>raw := rw,
                   last_seen := (case seen_at of None \<Rightarrow> strftime now | Some s \<Rightarrow> s),
                   fail_count := fail_count r + 1,
                   source := (case src of None \<Rightarrow> source r | Some s \<Rightarrow> Some s)\<rparr> # post)
   \<and> (k \<noteq> [] \<and> key r = k \<and> k \<notin> set (map key pre) \<and> k \<notin> set (map key post)
        \<and> 9223372036854775808 \<le> fail_count r \<longrightarrow>
        upsert_notworker now (pre @ r # post) k rw src seen_at =
          pre @ r\<lparr>raw := rw,
                   last_seen := (case seen_at of None \<Rightarrow> strftime now | Some s \<Rightarrow> s),
                   source := (case src of None \<Rightarrow> source r | Some s \<Rightarrow> Some s)\<rparr> # post)
   \<and> (k \<noteq> [] \<and> k \<notin> set (map key conn) \<longrightarrow>
        upsert_notworker now_iii
          (upsert_notworker now_ii (upsert_notworker now_i conn k ''a'' src_i seen_i) k ''b'' src_ii seen_ii)
          k ''c'' src_iii seen_iii =
          conn @ [\<lparr>key = k, raw = ''c'',
                    first_seen = (case seen_i of None \<Rightarrow> strftime now_i | Some s \<Rightarrow> s),
                    last_seen = (case seen_iii of None \<Rightarrow> strftime now_iii | Some s \<Rightarrow> s),
                    fail_count = 3,
                    source = (case src_iii of Some s \<Rightarrow> Some s
                              | None \<Rightarrow> (case src_ii of Some s \<Rightarrow> Some s | None \<Rightarrow> src_i))\<rparr>])"
proof -
  have absent: "upsert_notworker now conn k rw src seen_at =
          conn @ [\<lparr>key = k, raw = rw,
                    first_seen = (case seen_at of None \<Rightarrow> strftime now | Some s \<Rightarrow> s),
                    last_seen = (case seen_at of None \<Rightarrow> strftime now | Some s \<Rightarrow> s),
                    fail_count = 1, source = src\<rparr>]"
    if "k \<noteq> []" "k \<notin> set (map key conn)"
    using upsert_absent [OF that, of now rw src seen_at] unfolding utc_now_str_def .
  have present: "upsert_notworker now (pre @ r # post) k rw src seen_at =
          pre @ r\<lparr>raw := rw,
                   last_seen := (case seen_at of None \<Rightarrow> strftime now | Some s \<Rightarrow> s),
                   fail_count := sqlite_add1 (fail_count r),
                   source := (case src of None \<Rightarrow> source r | Some s \<Rightarrow> Some s)\<rparr> # post"
    if "k \<noteq> []" "key r = k" "k \<notin> set (map key pre)" "k \<notin> set (map key post)"
    using upsert_present [OF that, of now rw src seen_at] unfolding utc_now_str_def .
  have below: "upsert_notworker now (pre @ r # post) k rw src seen_at =
          pre @ r\<lparr>raw := rw,
                   last_seen := (case seen_at of None \<Rightarrow> strftime now | Some s \<Rightarrow> s),
                   fail_count := fail_count r + 1,
                   source := (case src of None \<Rightarrow> source r | Some s \<Rightarrow> Some s)\<rparr> # post"
    if "k \<noteq> []" "key r = k" "k \<notin> set (map key pre)" "k \<notin> set (map key post)"
      "fail_count r < 9223372036854775808"
    using present [OF that(1-4)] that(5) by (simp add: sqlite_add1_def)
  have above: "upsert_notworker now (pre @ r # post) k rw src seen_at =
          pre @ r\<lparr>raw := rw,
                   last_seen := (case seen_at of None \<Rightarrow> strftime now | Some s \<Rightarrow> s),
                   source := (case src of None \<Rightarrow> source r | Some s \<Rightarrow> Some s)\<rparr> # post"
    if "k \<noteq> []" "key r = k" "k \<notin> set (map key pre)" "k \<notin> set (map key post)"
      "9223372036854775808 \<le> fail_count r"
    using present [OF that(1-4)] that(5) by (simp add: sqlite_add1_def)
  have three: "upsert_notworker now_iii
          (upsert_notworker now_ii (upsert_notworker now_i conn k ''a'' src_i seen_i) k ''b'' src_ii seen_ii)
          k ''c'' src_iii seen_iii =
          conn @ [\<lparr>key = k, raw = ''c'',
                    first_seen = (case seen_i of None \<Rightarrow> strftime now_i | Some s \<Rightarrow> s),
                    last_seen = (case seen_iii of None \<Rightarrow> strftime now_iii | Some s \<Rightarrow> s),
                    fail_count = 3,
                    source = (case src_iii of Some s \<Rightarrow> Some s
                              | None \<Rightarrow> (case src_ii of Some s \<Rightarrow> Some s | None \<Rightarrow> src_i))\<rparr>]"
    if "k \<noteq> []" "k \<notin> set (map key conn)"
    using that
    by (simp add: upsert_absent upsert_present [where post = "[]"] utc_now_str_def
        sqlite_add1_def split: option.splits)
  have empty: "upsert_notworker now conn [] rw src seen_at = conn"
    by (simp add: upsert_notworker_def)
  show ?thesis
    using empty absent below above three by blast
qed

lemma strftime_now_a: "strftime now_a = ''2026-11-04T12:00:00Z''"
  by code_simp

lemma strftime_now_b: "strftime now_b = ''2026-11-05T09:30:15Z''"
  by code_simp

theorem upsert_cases_witness:
  "''k1'' \<noteq> [] \<and> ''k1'' \<notin> set (map key [row_at ''k0'' ''2026-11-01T00:00:00Z''])
   \<and> upsert_notworker now_a [row_at ''k0'' ''2026-11-01T00:00:00Z''] ''k1'' ''a'' None None
       = [row_at ''k0'' ''2026-11-01T00:00:00Z'',
          \<lparr>key = ''k1'', raw = ''a'', first_seen = ''2026-11-04T12:00:00Z'',
            last_seen = ''2026-11-04T12:00:00Z'', fail_count = 1, source = None\<rparr>]
   \<and> key (row_at ''k0'' ''2026-11-01T00:00:00Z'') = ''k0''
   \<and> fail_count (row_at ''k0'' ''2026-11-01T00:00:00Z'') < 9223372036854775808
   \<and> upsert_notworker now_b [row_at ''k0'' ''2026-11-01T00:00:00Z''] ''k0'' ''b'' None None
       = [\<lparr>key = ''k0'', raw = ''b'', first_seen = ''2026-11-01T00:00:00Z'',
            last_seen = ''2026-11-05T09:30:15Z'', fail_count = 2, source = None\<rparr>]
   \<and> upsert_notworker now_b
        (upsert_notworker now_a
           (upsert_notworker now_a [row_at ''k0'' ''2026-11-01T00:00:00Z''] ''k1'' ''a''
              (Some ''flat'') (Some ''2026-11-03T08:00:00Z''))
           ''k1'' ''b'' None None)
        ''k1'' ''c'' None None
       = [row_at ''k0'' ''2026-11-01T00:00:00Z'',
          \<lparr>key = ''k1'', raw = ''c'', first_seen = ''2026-11-03T08:00:00Z'',
            last_seen = ''2026-11-05T09:30:15Z'', fail_count = 3, source = Some ''flat''\<rparr>]"
  using
    upsert_cases [where now = now_a and conn = "[row_at ''k0'' ''2026-11-01T00:00:00Z'']"
      and rw = "''a''" and src = None and seen_at = None and k = "''k1''"
      and r = "row_at ''k0'' ''2026-11-01T00:00:00Z''" and pre = "[]" and post = "[]"
      and now_iii = now_b and now_ii = now_a and now_i = now_a and src_i = "Some ''flat''"
      and seen_i = "Some ''2026-11-03T08:00:00Z''" and src_ii = None and seen_ii = None
      and src_iii = None and seen_iii = None]
    upsert_cases [where now = now_b and conn = "[]" and rw = "''b''" and src = None
      and seen_at = None and k = "''k0''" and r = "row_at ''k0'' ''2026-11-01T00:00:00Z''"
      and pre = "[]" and post = "[]"]
  by (simp add: row_at_def strftime_now_a strftime_now_b)

text \<open>
  The claim as it was stated fails at the end of the 64-bit integers: on an entry whose
  \<^verbatim>\<open>fail_count\<close> is the REAL 9223372036854775808, the upsert leaves the count as it is.
\<close>

theorem upsert_cases_counterexample:
  "map fail_count
     (upsert_notworker now_a
        [\<lparr>key = ''k'', raw = ''a'', first_seen = ''2026-11-01T00:00:00Z'',
           last_seen = ''2026-11-01T00:00:00Z'', fail_count = 9223372036854775808,
           source = None\<rparr>] ''k'' ''b'' None None)
     = [9223372036854775808]"
  by (simp add: upsert_notworker_def sqlite_add1_def)

lemma prune_ids_props:
  assumes "k \<le> length conn"
  shows "distinct (prune_ids conn k)" and "length (prune_ids conn k) = k"
    and "set (prune_ids conn k) \<subseteq> {0..<length conn}"
    and "\<forall>i\<in>set (prune_ids conn k). \<forall>j\<in>{0..<length conn} - set (prune_ids conn k).
           last_seen (conn ! i) \<le> last_seen (conn ! j)"
proof -
  let ?f = "\<lambda>i. last_seen (conn ! i)"
  let ?s = "sort_key ?f [0..<length conn]"
  have d: "distinct ?s" by simp
  have st: "set ?s = {0..<length conn}" by simp
  have ln: "length ?s = length conn" by simp
  show "distinct (prune_ids conn k)" unfolding prune_ids_def using d by simp
  show "length (prune_ids conn k) = k" unfolding prune_ids_def using ln assms by simp
  show "set (prune_ids conn k) \<subseteq> {0..<length conn}"
    unfolding prune_ids_def using st set_take_subset [of k ?s] by blast
  have srt: "sorted (map ?f (take k ?s @ drop k ?s))" by simp
  have le: "\<forall>i\<in>set (take k ?s). \<forall>j\<in>set (drop k ?s). ?f i \<le> ?f j"
    using srt unfolding map_append sorted_append by auto
  have "{0..<length conn} - set (take k ?s) \<subseteq> set (drop k ?s)"
  proof -
    have "set ?s = set (take k ?s) \<union> set (drop k ?s)"
      using set_append [of "take k ?s" "drop k ?s"] by simp
    then show ?thesis using st by blast
  qed
  then show "\<forall>i\<in>set (prune_ids conn k). \<forall>j\<in>{0..<length conn} - set (prune_ids conn k).
           last_seen (conn ! i) \<le> last_seen (conn ! j)"
    unfolding prune_ids_def using le by blast
qed

lemma length_filter_mem:
  assumes "distinct ids" and "set ids \<subseteq> {0..<n}"
  shows "length (filter (\<lambda>i. i \<in> set ids) [0..<n]) = length ids"
proof -
  have "distinct (filter (\<lambda>i. i \<in> set ids) [0..<n])" by simp
  moreover have "set (filter (\<lambda>i. i \<in> set ids) [0..<n]) = set ids" using assms(2) by auto
  ultimately show ?thesis using assms(1) by (metis distinct_card)
qed

lemma mset_split_idx:
  "mset conn = mset (map (\<lambda>i. conn ! i) (filter (\<lambda>i. i \<notin> S) [0..<length conn]))
             + mset (map (\<lambda>i. conn ! i) (filter (\<lambda>i. i \<in> S) [0..<length conn]))"
proof -
  have "mset conn = mset (map (\<lambda>i. conn ! i) [0..<length conn])"
    by (simp add: map_nth)
  also have "\<dots> = image_mset (\<lambda>i. conn ! i) (mset [0..<length conn])"
    by simp
  also have "mset [0..<length conn] = filter_mset (\<lambda>i. i \<notin> S) (mset [0..<length conn])
       + filter_mset (\<lambda>i. \<not> i \<notin> S) (mset [0..<length conn])"
    by (rule multiset_partition)
  finally show ?thesis by simp
qed

text \<open>
  C6: when \<^verbatim>\<open>max_rows\<close> is not positive or the table has at most \<^verbatim>\<open>max_rows\<close> rows,
  \<^verbatim>\<open>prune_to_max\<close> changes nothing and returns 0. Otherwise exactly \<^verbatim>\<open>max_rows\<close> rows
  remain, in their old order, the number returned is the number of rows deleted, and
  every deleted row has a \<^verbatim>\<open>last_seen\<close> no later than that of every row that remains:
  the oldest rows go. With four rows last seen at T1 < T2 < T3 < T4 and \<^verbatim>\<open>max_rows\<close> 2,
  the rows of T1 and T2 are deleted.
\<close>

theorem prune_to_max_oldest:
  "((max_rows \<le> 0 \<or> int (length conn) \<le> max_rows) \<longrightarrow> prune_to_max conn max_rows = (conn, 0))
   \<and> (0 < max_rows \<and> max_rows < int (length conn) \<longrightarrow>
        (\<exists>conn' n. prune_to_max conn max_rows = (conn', n)
           \<and> int (length conn') = max_rows
           \<and> n = int (length conn) - max_rows
           \<and> subseq conn' conn
           \<and> size (mset conn - mset conn') = nat n
           \<and> (\<forall>d\<in>#(mset conn - mset conn'). \<forall>r\<in>set conn'. last_seen d \<le> last_seen r)))"
proof -
  have noop: "prune_to_max conn max_rows = (conn, 0)"
    if "max_rows \<le> 0 \<or> int (length conn) \<le> max_rows"
    using that by (auto simp: prune_to_max_def)
  have main: "\<exists>conn' n. prune_to_max conn max_rows = (conn', n)
           \<and> int (length conn') = max_rows
           \<and> n = int (length conn) - max_rows
           \<and> subseq conn' conn
           \<and> size (mset conn - mset conn') = nat n
           \<and> (\<forall>d\<in>#(mset conn - mset conn'). \<forall>r\<in>set conn'. last_seen d \<le> last_seen r)"
    if h: "0 < max_rows" "max_rows < int (length conn)"
  proof -
    define k where "k = nat (int (length conn) - max_rows)"
    define ids where "ids = prune_ids conn k"
    define keep where "keep = filter (\<lambda>i. i \<notin> set ids) [0..<length conn]"
    define del where "del = filter (\<lambda>i. i \<in> set ids) [0..<length conn]"
    have kle: "k \<le> length conn" unfolding k_def using h by simp
    note p = prune_ids_props [OF kle, folded ids_def]
    have eq: "prune_to_max conn max_rows = (map (\<lambda>i. conn ! i) keep, int (length del))"
      using h by (simp add: prune_to_max_def Let_def k_def ids_def keep_def del_def)
    have ldel: "length del = k"
      unfolding del_def using length_filter_mem [OF p(1) p(3)] p(2) by simp
    have "length keep + length del = length [0..<length conn]"
      unfolding keep_def del_def using sum_length_filter_compl [of "\<lambda>i. i \<notin> set ids" "[0..<length conn]"]
      by simp
    then have lkeep: "length keep = length conn - k" using ldel by simp
    have sub: "subseq (map (\<lambda>i. conn ! i) keep) conn"
    proof -
      have "subseq keep [0..<length conn]" unfolding keep_def by simp
      then have "subseq (map (\<lambda>i. conn ! i) keep) (map (\<lambda>i. conn ! i) [0..<length conn])"
        by (rule subseq_map)
      then show ?thesis by (simp add: map_nth)
    qed
    have ms: "mset conn - mset (map (\<lambda>i. conn ! i) keep) = mset (map (\<lambda>i. conn ! i) del)"
      using mset_split_idx [of conn "set ids"] unfolding keep_def del_def
      by (metis add_diff_cancel_left')
    have ord: "\<forall>d\<in>#mset (map (\<lambda>i. conn ! i) del). \<forall>r\<in>set (map (\<lambda>i. conn ! i) keep).
        last_seen d \<le> last_seen r"
      using p(4) unfolding del_def keep_def by auto
    have l1: "int (length (map (\<lambda>i. conn ! i) keep)) = max_rows"
      using lkeep h unfolding k_def by simp
    have l2: "int (length del) = int (length conn) - max_rows"
      using ldel h unfolding k_def by simp
    have l3: "size (mset conn - mset (map (\<lambda>i. conn ! i) keep)) = nat (int (length del))"
      unfolding ms by simp
    have l4: "\<forall>d\<in>#(mset conn - mset (map (\<lambda>i. conn ! i) keep)).
        \<forall>r\<in>set (map (\<lambda>i. conn ! i) keep). last_seen d \<le> last_seen r"
      unfolding ms by (rule ord)
    show ?thesis
      by (intro exI [where x = "map (\<lambda>i. conn ! i) keep"] exI [where x = "int (length del)"]
          conjI eq l1 l2 l3 l4 sub)
  qed
  show ?thesis using noop main by blast
qed

theorem prune_to_max_oldest_witness:
  "(0::int) < 2
   \<and> 2 < int (length [row_at ''c'' ''2026-03-01T00:00:00Z'', row_at ''a'' ''2026-01-01T00:00:00Z'',
                        row_at ''d'' ''2026-04-01T00:00:00Z'', row_at ''b'' ''2026-02-01T00:00:00Z''])
   \<and> prune_to_max [row_at ''c'' ''2026-03-01T00:00:00Z'', row_at ''a'' ''2026-01-01T00:00:00Z'',
                     row_at ''d'' ''2026-04-01T00:00:00Z'', row_at ''b'' ''2026-02-01T00:00:00Z''] 2
       = ([row_at ''c'' ''2026-03-01T00:00:00Z'', row_at ''d'' ''2026-04-01T00:00:00Z''], 2)
   \<and> prune_to_max [row_at ''c'' ''2026-03-01T00:00:00Z'', row_at ''a'' ''2026-01-01T00:00:00Z''] 2
       = ([row_at ''c'' ''2026-03-01T00:00:00Z'', row_at ''a'' ''2026-01-01T00:00:00Z''], 0)"
proof -
  have ex: "prune_to_max [row_at ''c'' ''2026-03-01T00:00:00Z'', row_at ''a'' ''2026-01-01T00:00:00Z'',
                 row_at ''d'' ''2026-04-01T00:00:00Z'', row_at ''b'' ''2026-02-01T00:00:00Z''] 2
     = ([row_at ''c'' ''2026-03-01T00:00:00Z'', row_at ''d'' ''2026-04-01T00:00:00Z''], 2)"
    by code_simp
  show ?thesis
    using ex
      prune_to_max_oldest [of 2
        "[row_at ''c'' ''2026-03-01T00:00:00Z'', row_at ''a'' ''2026-01-01T00:00:00Z'',
          row_at ''d'' ''2026-04-01T00:00:00Z'', row_at ''b'' ''2026-02-01T00:00:00Z'']"]
      prune_to_max_oldest [of 2
        "[row_at ''c'' ''2026-03-01T00:00:00Z'', row_at ''a'' ''2026-01-01T00:00:00Z'']"]
    by simp
qed

text \<open>
  The format of the store orders well-formed timestamps as time does: digits compare as
  numbers, and fields of equal width compare from the left.
\<close>

lemma digit_code: "a < 10 \<Longrightarrow> of_char (''0123456789'' ! a) = 48 + a"
  for a :: nat
proof -
  assume "a < 10"
  then have "a = 0 \<or> a = 1 \<or> a = 2 \<or> a = 3 \<or> a = 4 \<or> a = 5 \<or> a = 6 \<or> a = 7 \<or> a = 8 \<or> a = 9"
    by presburger
  then show ?thesis by (elim disjE) simp_all
qed

lemma digit_less: "a < 10 \<Longrightarrow> b < 10 \<Longrightarrow> (''0123456789'' ! a < ''0123456789'' ! b) = (a < b)"
  unfolding less_char_def by (simp only: digit_code) simp

lemma digit_eq: "a < 10 \<Longrightarrow> b < 10 \<Longrightarrow> (''0123456789'' ! a = ''0123456789'' ! b) = (a = b)"
proof -
  assume h: "a < 10" "b < 10"
  have "(''0123456789'' ! a = ''0123456789'' ! b)
      = (of_char (''0123456789'' ! a) = (of_char (''0123456789'' ! b) :: nat))"
    by (simp only: of_char_eq_iff)
  also have "\<dots> = (a = b)" by (simp only: digit_code [OF h(1)] digit_code [OF h(2)]) simp
  finally show ?thesis .
qed

lemma snoc_less:
  "length xs = length ys \<Longrightarrow> (xs @ [x] < ys @ [y]) = (xs < ys \<or> xs = ys \<and> x < y)"
  for x :: char
  by (induction xs ys rule: list_induct2) auto

lemma block_less:
  "length xs = length ys \<Longrightarrow> (xs @ u < ys @ v) = (xs < ys \<or> xs = ys \<and> u < v)"
  for u :: string
  by (induction xs ys rule: list_induct2) auto

lemma dec_small: "n < 10 \<Longrightarrow> dec n = [''0123456789'' ! n]"
  by (subst dec.simps) simp

lemma dec_big: "\<not> n < 10 \<Longrightarrow> dec n = dec (n div 10) @ [''0123456789'' ! (n mod 10)]"
  by (subst dec.simps) simp

lemma lex10:
  "r < 10 \<Longrightarrow> s < 10 \<Longrightarrow>
   ((p < q \<or> p = q \<and> r < s) = (10 * p + r < 10 * q + s))
   \<and> ((p = q \<and> r = s) = (10 * p + r = 10 * q + s))"
  for p q r s :: nat
proof -
  assume h: "r < 10" "s < 10"
  consider "p < q" | "p = q" | "q < p" by linarith
  then show ?thesis
  proof cases
    case 1
    then show ?thesis using h by linarith
  next
    case 2
    then show ?thesis using h by auto
  next
    case 3
    then show ?thesis using h by linarith
  qed
qed

lemma divmod10_less:
  "(a div 10 < b div 10 \<or> a div 10 = b div 10 \<and> a mod 10 < b mod 10) = (a < b)"
  for a b :: nat
  using lex10 [of "a mod 10" "b mod 10" "a div 10" "b div 10"] by simp

lemma divmod10_eq: "(a div 10 = b div 10 \<and> a mod 10 = b mod 10) = (a = b)"
  for a b :: nat
  using lex10 [of "a mod 10" "b mod 10" "a div 10" "b div 10"] by simp

lemma dec_length_pos: "0 < length (dec n)"
  by (cases "n < 10") (simp_all add: dec_small dec_big)

lemma dec_len1: "length (dec b) = 1 \<Longrightarrow> b < 10"
proof (rule ccontr)
  assume l: "length (dec b) = 1" and n: "\<not> b < 10"
  have "length (dec b) = length (dec (b div 10)) + 1"
    unfolding dec_big [OF n] by simp
  with l dec_length_pos [of "b div 10"] show False by simp
qed

lemma dec_order_small:
  "a < 10 \<Longrightarrow> b < 10 \<Longrightarrow> (dec a < dec b) = (a < b) \<and> (dec a = dec b) = (a = b)"
proof -
  assume h: "a < 10" "b < 10"
  show ?thesis
    unfolding dec_small [OF h(1)] dec_small [OF h(2)]
    using digit_less [OF h] digit_eq [OF h] by simp
qed

lemma dec_order_step:
  assumes na: "\<not> a < 10" and nb: "\<not> b < 10"
    and ih: "(dec (a div 10) < dec (b div 10)) = (a div 10 < b div 10)
             \<and> (dec (a div 10) = dec (b div 10)) = (a div 10 = b div 10)"
    and len: "length (dec (a div 10)) = length (dec (b div 10))"
  shows "(dec a < dec b) = (a < b) \<and> (dec a = dec b) = (a = b)"
proof -
  have m: "a mod 10 < 10" "b mod 10 < 10" by simp_all
  have l: "(dec a < dec b)
      = (dec (a div 10) < dec (b div 10)
         \<or> dec (a div 10) = dec (b div 10)
           \<and> ''0123456789'' ! (a mod 10) < ''0123456789'' ! (b mod 10))"
    unfolding dec_big [OF na] dec_big [OF nb] by (rule snoc_less [OF len])
  have e: "(dec a = dec b)
      = (dec (a div 10) = dec (b div 10)
         \<and> ''0123456789'' ! (a mod 10) = ''0123456789'' ! (b mod 10))"
    unfolding dec_big [OF na] dec_big [OF nb] by (rule append1_eq_conv)
  have "(dec a < dec b) = (a div 10 < b div 10 \<or> a div 10 = b div 10 \<and> a mod 10 < b mod 10)"
    unfolding l digit_less [OF m] using ih by (simp only:)
  moreover have "(dec a = dec b) = (a div 10 = b div 10 \<and> a mod 10 = b mod 10)"
    unfolding e digit_eq [OF m] using ih by (simp only:)
  ultimately show ?thesis by (simp only: divmod10_less divmod10_eq)
qed

lemma dec_order:
  "length (dec a) = length (dec b) \<Longrightarrow> (dec a < dec b) = (a < b) \<and> (dec a = dec b) = (a = b)"
proof (induction a arbitrary: b rule: dec.induct)
  case (1 a)
  show ?case
  proof (cases "a < 10")
    case True
    then have "length (dec a) = 1" by (simp only: dec_small) simp
    then have "length (dec b) = 1" using "1.prems" by simp
    then have "b < 10" by (rule dec_len1)
    with True show ?thesis by (rule dec_order_small)
  next
    case False
    have b: "\<not> b < 10"
    proof
      assume "b < 10"
      then have "length (dec b) = 1" by (simp only: dec_small) simp
      then have "length (dec a) = 1" using "1.prems" by simp
      then have "a < 10" by (rule dec_len1)
      with False show False by simp
    qed
    have "length (dec (a div 10)) + 1 = length (dec (b div 10)) + 1"
      using "1.prems" unfolding dec_big [OF False] dec_big [OF b] by simp
    then have len: "length (dec (a div 10)) = length (dec (b div 10))" by simp
    from "1.IH" [OF False len] show ?thesis by (rule dec_order_step [OF False b _ len])
  qed
qed

lemma dec_length4: "1000 \<le> n \<Longrightarrow> n \<le> 9999 \<Longrightarrow> length (dec n) = 4"
proof -
  assume h: "1000 \<le> n" "n \<le> 9999"
  have a1: "\<not> n < 10" using h by simp
  have a2: "\<not> n div 10 < 10" using h by simp
  have a3: "\<not> n div 10 div 10 < 10" using h by (simp add: div_mult2_eq [symmetric])
  have a4: "n div 10 div 10 div 10 < 10" using h by (simp add: div_mult2_eq [symmetric])
  show ?thesis
    unfolding dec_big [OF a1] dec_big [OF a2] dec_big [OF a3] dec_small [OF a4] by simp
qed

lemma dec2_digits:
  "0 \<le> i \<Longrightarrow> i \<le> 99 \<Longrightarrow>
   dec2 i = [''0123456789'' ! (nat i div 10), ''0123456789'' ! (nat i mod 10)]"
proof -
  assume h: "0 \<le> i" "i \<le> 99"
  show ?thesis
  proof (cases "i < 10")
    case True
    then have s: "nat i < 10" by simp
    have "dec2 i = CHR ''0'' # dec (nat i)" using True by (simp add: dec2_def)
    then show ?thesis unfolding dec_small [OF s] using s by simp
  next
    case False
    then have a: "\<not> nat i < 10" using h by simp
    have b: "nat i div 10 < 10" using h by simp
    have "dec2 i = dec (nat i)" using False by (simp add: dec2_def)
    then show ?thesis unfolding dec_big [OF a] dec_small [OF b] by simp
  qed
qed

lemma dec2_order:
  assumes "0 \<le> i" "i \<le> 99" "0 \<le> j" "j \<le> 99"
  shows "(dec2 i < dec2 j) = (i < j)" and "(dec2 i = dec2 j) = (i = j)"
    and "length (dec2 i) = length (dec2 j)"
proof -
  have mi: "nat i div 10 < 10" "nat i mod 10 < 10" using assms by simp_all
  have mj: "nat j div 10 < 10" "nat j mod 10 < 10" using assms by simp_all
  have "(dec2 i < dec2 j)
      = (nat i div 10 < nat j div 10 \<or> nat i div 10 = nat j div 10 \<and> nat i mod 10 < nat j mod 10)"
    unfolding dec2_digits [OF assms(1,2)] dec2_digits [OF assms(3,4)]
    using digit_less [OF mi(1) mj(1)] digit_eq [OF mi(1) mj(1)] digit_less [OF mi(2) mj(2)]
    by simp
  also have "\<dots> = (nat i < nat j)" by (rule divmod10_less)
  also have "\<dots> = (i < j)" using assms by auto
  finally show "(dec2 i < dec2 j) = (i < j)" .
  have "(dec2 i = dec2 j) = (nat i div 10 = nat j div 10 \<and> nat i mod 10 = nat j mod 10)"
    unfolding dec2_digits [OF assms(1,2)] dec2_digits [OF assms(3,4)]
    using digit_eq [OF mi(1) mj(1)] digit_eq [OF mi(2) mj(2)] by simp
  also have "\<dots> = (nat i = nat j)" by (rule divmod10_eq)
  also have "\<dots> = (i = j)" using assms by auto
  finally show "(dec2 i = dec2 j) = (i = j)" .
  show "length (dec2 i) = length (dec2 j)"
    unfolding dec2_digits [OF assms(1,2)] dec2_digits [OF assms(3,4)] by simp
qed

lemma year_order:
  assumes "1000 \<le> y" "y \<le> 9999" "1000 \<le> z" "z \<le> 9999"
  shows "(dec (nat y) < dec (nat z)) = (y < z)" and "(dec (nat y) = dec (nat z)) = (y = z)"
    and "length (dec (nat y)) = length (dec (nat z))"
proof -
  have "length (dec (nat y)) = 4" "length (dec (nat z)) = 4"
    using assms by (simp_all add: dec_length4)
  then show l: "length (dec (nat y)) = length (dec (nat z))" by simp
  note o = dec_order [OF l]
  have "(nat y < nat z) = (y < z)" "(nat y = nat z) = (y = z)" using assms by auto
  with o show "(dec (nat y) < dec (nat z)) = (y < z)" "(dec (nat y) = dec (nat z)) = (y = z)"
    by simp_all
qed

lemma strftime_less_iff:
  assumes "fixed_width a" and "fixed_width b"
  shows "(strftime a < strftime b) = second_before a b"
proof -
  have ra: "1000 \<le> year a" "year a \<le> 9999" "0 \<le> month a" "month a \<le> 99" "0 \<le> day a"
    "day a \<le> 99" "0 \<le> hour a" "hour a \<le> 99" "0 \<le> minute a" "minute a \<le> 99"
    "0 \<le> second a" "second a \<le> 99"
    using assms(1) unfolding fixed_width_def by linarith+
  have rb: "1000 \<le> year b" "year b \<le> 9999" "0 \<le> month b" "month b \<le> 99" "0 \<le> day b"
    "day b \<le> 99" "0 \<le> hour b" "hour b \<le> 99" "0 \<le> minute b" "minute b \<le> 99"
    "0 \<le> second b" "second b \<le> 99"
    using assms(2) unfolding fixed_width_def by linarith+
  note y = year_order [OF ra(1,2) rb(1,2)]
  note mo = dec2_order [OF ra(3,4) rb(3,4)]
  note d = dec2_order [OF ra(5,6) rb(5,6)]
  note h = dec2_order [OF ra(7,8) rb(7,8)]
  note mi = dec2_order [OF ra(9,10) rb(9,10)]
  note s = dec2_order [OF ra(11,12) rb(11,12)]
  show ?thesis
    unfolding strftime_def second_before_def
    by (simp only: block_less [OF y(3)] block_less [OF mo(3)] block_less [OF d(3)]
        block_less [OF h(3)] block_less [OF mi(3)] block_less [OF s(3)]
        y(1,2) mo(1,2) d(1,2) h(1,2) mi(1,2) s(1,2)
        append_Cons append_Nil Cons_less_Cons not_less_Nil simp_thms order.irrefl)
qed

text \<open>
  The calendar arithmetic: the date of an ordinal is a valid date with that ordinal, the
  ordinal grows with the date, and so an earlier ordinal has an earlier date.
\<close>

lemma int_div_eqI: "0 \<le> r \<Longrightarrow> r < b \<Longrightarrow> a = b * q + r \<Longrightarrow> a div b = q" for a b q r :: int
  by (metis div_mult_self4 div_pos_pos_trivial add.commute add_0 less_le_not_le mult_zero_right)

lemma int_mod_eqI: "0 \<le> r \<Longrightarrow> r < b \<Longrightarrow> a = b * q + r \<Longrightarrow> a mod b = r" for a b q r :: int
  by (metis mod_mult_self4 mod_pos_pos_trivial add.commute)

lemma days_before_year_cycles:
  assumes "0 \<le> n400" "0 \<le> n100" "n100 \<le> 3" "0 \<le> n4" "n4 \<le> 24" "0 \<le> n1" "n1 \<le> 3"
  shows "days_before_year (n400 * 400 + 1 + n100 * 100 + n4 * 4 + n1)
           = 146097 * n400 + 36524 * n100 + 1461 * n4 + 365 * n1"
proof -
  define Y where "Y = n400 * 400 + n100 * 100 + n4 * 4 + n1"
  have d4: "Y div 4 = 100 * n400 + 25 * n100 + n4"
    by (rule int_div_eqI [where r = n1]) (use assms in \<open>simp_all add: Y_def\<close>)
  have d100: "Y div 100 = 4 * n400 + n100"
    by (rule int_div_eqI [where r = "n4 * 4 + n1"]) (use assms in \<open>simp_all add: Y_def\<close>)
  have d400: "Y div 400 = n400"
    by (rule int_div_eqI [where r = "n100 * 100 + n4 * 4 + n1"])
      (use assms in \<open>simp_all add: Y_def\<close>)
  have "n400 * 400 + 1 + n100 * 100 + n4 * 4 + n1 - 1 = Y" by (simp add: Y_def)
  then have "days_before_year (n400 * 400 + 1 + n100 * 100 + n4 * 4 + n1)
      = Y * 365 + Y div 4 - Y div 100 + Y div 400"
    by (simp add: days_before_year_def Let_def)
  also have "\<dots> = 146097 * n400 + 36524 * n100 + 1461 * n4 + 365 * n1"
    unfolding d4 d100 d400 by (simp add: Y_def)
  finally show ?thesis .
qed

lemma is_leap_cycles:
  assumes "0 \<le> n400" "0 \<le> n100" "n100 \<le> 3" "0 \<le> n4" "n4 \<le> 24" "0 \<le> n1" "n1 \<le> 3"
  shows "is_leap (n400 * 400 + 1 + n100 * 100 + n4 * 4 + n1)
           = (n1 = 3 \<and> (n4 \<noteq> 24 \<or> n100 = 3))"
proof -
  define y where "y = n400 * 400 + 1 + n100 * 100 + n4 * 4 + n1"
  have m4: "(y mod 4 = 0) = (n1 = 3)"
  proof (cases "n1 = 3")
    case True
    have "y mod 4 = 0"
      by (rule int_mod_eqI [where q = "100 * n400 + 25 * n100 + n4 + 1"])
        (use True in \<open>simp_all add: y_def\<close>)
    with True show ?thesis by simp
  next
    case False
    have "y mod 4 = n1 + 1"
      by (rule int_mod_eqI [where q = "100 * n400 + 25 * n100 + n4"])
        (use False assms in \<open>simp_all add: y_def\<close>)
    with False assms show ?thesis by simp
  qed
  have m100: "(y mod 100 = 0) = (n4 = 24 \<and> n1 = 3)"
  proof (cases "n4 = 24 \<and> n1 = 3")
    case True
    have "y mod 100 = 0"
      by (rule int_mod_eqI [where q = "4 * n400 + n100 + 1"]) (use True in \<open>simp_all add: y_def\<close>)
    with True show ?thesis by simp
  next
    case False
    have "y mod 100 = n4 * 4 + n1 + 1"
      by (rule int_mod_eqI [where q = "4 * n400 + n100"])
        (use False assms in \<open>auto simp: y_def\<close>)
    with False assms show ?thesis by auto
  qed
  have m400: "(y mod 400 = 0) = (n100 = 3 \<and> n4 = 24 \<and> n1 = 3)"
  proof (cases "n100 = 3 \<and> n4 = 24 \<and> n1 = 3")
    case True
    have "y mod 400 = 0"
      by (rule int_mod_eqI [where q = "n400 + 1"]) (use True in \<open>simp_all add: y_def\<close>)
    with True show ?thesis by simp
  next
    case False
    have "y mod 400 = n100 * 100 + n4 * 4 + n1 + 1"
      by (rule int_mod_eqI [where q = "n400"]) (use False assms in \<open>auto simp: y_def\<close>)
    with False assms show ?thesis by auto
  qed
  show ?thesis
    unfolding is_leap_def y_def [symmetric] m4 m100 m400 by auto
qed

lemma month_part:
  fixes r :: int and leap :: bool
  assumes r: "0 \<le> r" "r < 365"
  defines "m \<equiv> (r + 50) div 32"
  defines "preceding \<equiv> days_before_month_tab ! nat (m - 1) + (if m > 2 \<and> leap then 1 else 0)"
  defines "m' \<equiv> (if preceding > r then m - 1 else m)"
  defines "preceding' \<equiv>
             (if preceding > r
              then preceding - (days_in_month_tab ! nat (m' - 1) + (if m' = 2 \<and> leap then 1 else 0))
              else preceding)"
  shows "1 \<le> m' \<and> m' \<le> 12
     \<and> preceding' = days_before_month_tab ! nat (m' - 1) + (if m' > 2 \<and> leap then 1 else 0)
     \<and> preceding' \<le> r
     \<and> r - preceding' + 1
         \<le> days_in_month_tab ! nat (m' - 1) + (if m' = 2 \<and> leap then 1 else 0)"
proof -
  have e: "r + 50 = 32 * m + (r + 50) mod 32"
    unfolding m_def by simp
  have b: "0 \<le> (r + 50) mod 32" "(r + 50) mod 32 < 32" by simp_all
  have lo: "32 * m \<le> r + 50" and hi: "r + 50 < 32 * m + 32" using e b by linarith+
  have "1 \<le> m" "m \<le> 12" using lo hi r by linarith+
  then have "m = 1 \<or> m = 2 \<or> m = 3 \<or> m = 4 \<or> m = 5 \<or> m = 6 \<or> m = 7 \<or> m = 8 \<or> m = 9
      \<or> m = 10 \<or> m = 11 \<or> m = 12"
    by presburger
  then show ?thesis
  proof (elim disjE)
    assume "m = 1" then show ?thesis
      using lo hi r unfolding preceding'_def m'_def preceding_def
      by (simp add: days_before_month_tab_def days_in_month_tab_def)
  next
    assume "m = 2" then show ?thesis
      using lo hi r unfolding preceding'_def m'_def preceding_def
      by (simp add: days_before_month_tab_def days_in_month_tab_def)
  next
    assume "m = 3" then show ?thesis
      using lo hi r unfolding preceding'_def m'_def preceding_def
      by (simp add: days_before_month_tab_def days_in_month_tab_def)
  next
    assume "m = 4" then show ?thesis
      using lo hi r unfolding preceding'_def m'_def preceding_def
      by (simp add: days_before_month_tab_def days_in_month_tab_def)
  next
    assume "m = 5" then show ?thesis
      using lo hi r unfolding preceding'_def m'_def preceding_def
      by (simp add: days_before_month_tab_def days_in_month_tab_def)
  next
    assume "m = 6" then show ?thesis
      using lo hi r unfolding preceding'_def m'_def preceding_def
      by (simp add: days_before_month_tab_def days_in_month_tab_def)
  next
    assume "m = 7" then show ?thesis
      using lo hi r unfolding preceding'_def m'_def preceding_def
      by (simp add: days_before_month_tab_def days_in_month_tab_def)
  next
    assume "m = 8" then show ?thesis
      using lo hi r unfolding preceding'_def m'_def preceding_def
      by (simp add: days_before_month_tab_def days_in_month_tab_def)
  next
    assume "m = 9" then show ?thesis
      using lo hi r unfolding preceding'_def m'_def preceding_def
      by (simp add: days_before_month_tab_def days_in_month_tab_def)
  next
    assume "m = 10" then show ?thesis
      using lo hi r unfolding preceding'_def m'_def preceding_def
      by (simp add: days_before_month_tab_def days_in_month_tab_def)
  next
    assume "m = 11" then show ?thesis
      using lo hi r unfolding preceding'_def m'_def preceding_def
      by (simp add: days_before_month_tab_def days_in_month_tab_def)
  next
    assume "m = 12" then show ?thesis
      using lo hi r unfolding preceding'_def m'_def preceding_def
      by (simp add: days_before_month_tab_def days_in_month_tab_def)
  qed
qed

lemma div_step:
  fixes y c :: int
  assumes "1 < c"
  shows "y div c - (y - 1) div c = (if y mod c = 0 then 1 else 0)"
proof (cases "y mod c = 0")
  case True
  have e: "y = c * (y div c)" using True by (metis add.right_neutral mult_div_mod_eq)
  have "(y - 1) div c = y div c - 1"
    by (rule int_div_eqI [where r = "c - 1"]) (use assms e in \<open>simp_all add: algebra_simps\<close>)
  with True show ?thesis by simp
next
  case False
  have b: "0 \<le> y mod c" "y mod c < c" using assms by simp_all
  have e: "y = c * (y div c) + y mod c" by simp
  have "(y - 1) div c = y div c"
    by (rule int_div_eqI [where r = "y mod c - 1"]) (use b False e in \<open>simp_all\<close>)
  with False show ?thesis by simp
qed

lemma days_before_year_step:
  "days_before_year (y + 1) = days_before_year y + 365 + (if is_leap y then 1 else 0)"
proof -
  define i4 :: int where "i4 = (if y mod 4 = 0 then 1 else 0)"
  define i100 :: int where "i100 = (if y mod 100 = 0 then 1 else 0)"
  define i400 :: int where "i400 = (if y mod 400 = 0 then 1 else 0)"
  define p4 where "p4 = (y - 1) div 4"
  define p100 where "p100 = (y - 1) div 100"
  define p400 where "p400 = (y - 1) div 400"
  have a: "y div 4 = p4 + i4"
    using div_step [where c = 4 and y = y] unfolding i4_def p4_def by simp
  have b: "y div 100 = p100 + i100"
    using div_step [where c = 100 and y = y] unfolding i100_def p100_def by simp
  have c: "y div 400 = p400 + i400"
    using div_step [where c = 400 and y = y] unfolding i400_def p400_def by simp
  have i1: "y mod 4 = 0" if "y mod 100 = 0"
  proof -
    have "y mod 100 mod 4 = y mod 4" by (rule mod_mod_cancel) simp
    with that show ?thesis by simp
  qed
  have i2: "y mod 100 = 0" if "y mod 400 = 0"
  proof -
    have "y mod 400 mod 100 = y mod 100" by (rule mod_mod_cancel) simp
    with that show ?thesis by simp
  qed
  define b4 where "b4 = (y mod 4 = 0)"
  define b100 where "b100 = (y mod 100 = 0)"
  define b400 where "b400 = (y mod 400 = 0)"
  have j1: "b100 \<Longrightarrow> b4" unfolding b4_def b100_def by (rule i1)
  have j2: "b400 \<Longrightarrow> b100" unfolding b400_def b100_def by (rule i2)
  have ind: "i4 - i100 + i400 = (if is_leap y then 1 else 0)"
    unfolding i4_def i100_def i400_def is_leap_def
      b4_def [symmetric] b100_def [symmetric] b400_def [symmetric]
    using j1 j2 by (cases b4; cases b100; cases b400) simp_all
  have l: "days_before_year (y + 1) = y * 365 + (p4 + i4) - (p100 + i100) + (p400 + i400)"
    unfolding a [symmetric] b [symmetric] c [symmetric]
    by (simp add: days_before_year_def Let_def)
  have r: "days_before_year y = (y - 1) * 365 + p4 - p100 + p400"
    unfolding p4_def p100_def p400_def by (simp add: days_before_year_def Let_def)
  show ?thesis unfolding l r using ind by (simp add: algebra_simps)
qed

lemma days_before_year_mono_nat:
  "days_before_year y + 365 * int k \<le> days_before_year (y + int k)"
proof (induction k)
  case 0
  then show ?case by simp
next
  case (Suc k)
  have "y + int (Suc k) = (y + int k) + 1" by simp
  then have "days_before_year (y + int (Suc k)) = days_before_year ((y + int k) + 1)"
    by (simp only:)
  also have "\<dots> \<ge> days_before_year (y + int k) + 365"
    unfolding days_before_year_step by simp
  finally show ?case using Suc.IH by simp
qed

lemma days_before_year_mono: "y \<le> y' \<Longrightarrow> days_before_year y \<le> days_before_year y'"
  using days_before_year_mono_nat [of y "nat (y' - y)"] by simp

lemma ord2ymd_inverse:
  assumes n: "1 \<le> n" "n \<le> 3652059"
  shows "\<exists>y m d. ord2ymd n = (y, m, d) \<and> 1 \<le> y \<and> y \<le> 9999 \<and> 1 \<le> m \<and> m \<le> 12
           \<and> 1 \<le> d \<and> d \<le> days_in_month y m \<and> ymd2ord y m d = n"
proof -
  define n0 where "n0 = n - 1"
  define n400 where "n400 = n0 div 146097"
  define r1 where "r1 = n0 mod 146097"
  define n100 where "n100 = r1 div 36524"
  define r2 where "r2 = r1 mod 36524"
  define n4 where "n4 = r2 div 1461"
  define r3 where "r3 = r2 mod 1461"
  define n1 where "n1 = r3 div 365"
  define r4 where "r4 = r3 mod 365"
  define y where "y = n400 * 400 + 1 + n100 * 100 + n4 * 4 + n1"
  have e1: "n0 = 146097 * n400 + r1" and b1: "0 \<le> r1" "r1 < 146097"
    unfolding n400_def r1_def by simp_all
  have e2: "r1 = 36524 * n100 + r2" and b2: "0 \<le> r2" "r2 < 36524"
    unfolding n100_def r2_def by simp_all
  have e3: "r2 = 1461 * n4 + r3" and b3: "0 \<le> r3" "r3 < 1461"
    unfolding n4_def r3_def by simp_all
  have e4: "r3 = 365 * n1 + r4" and b4: "0 \<le> r4" "r4 < 365"
    unfolding n1_def r4_def by simp_all
  have p400: "0 \<le> n400" "n400 \<le> 24" using e1 b1 n unfolding n0_def by linarith+
  have p100: "0 \<le> n100" "n100 \<le> 4" using e2 b1 b2 by linarith+
  have p4: "0 \<le> n4" "n4 \<le> 24" using e3 b2 b3 by linarith+
  have p1: "0 \<le> n1" "n1 \<le> 4" using e4 b3 b4 by linarith+
  have unfold: "ord2ymd n =
      (if n1 = 4 \<or> n100 = 4 then (y - 1, 12, 31)
       else
         (let leapyear = (n1 = 3 \<and> (n4 \<noteq> 24 \<or> n100 = 3));
              m = (r4 + 50) div 32;
              preceding = days_before_month_tab ! nat (m - 1)
                            + (if m > 2 \<and> leapyear then 1 else 0);
              m' = (if preceding > r4 then m - 1 else m);
              preceding' =
                (if preceding > r4
                 then preceding
                        - (days_in_month_tab ! nat (m' - 1)
                             + (if m' = 2 \<and> leapyear then 1 else 0))
                 else preceding)
          in (y, m', r4 - preceding' + 1)))"
    unfolding ord2ymd_def n0_def n400_def r1_def n100_def r2_def n4_def r3_def n1_def r4_def y_def
    by (simp only: Let_def)
  show ?thesis
  proof (cases "n1 = 4 \<or> n100 = 4")
    case True
    define m4 where "m4 = (if n100 = 4 then 24 else n4)"
    define m100 where "m100 = (if n100 = 4 then 3 else n100)"
    have z: "r4 = 0" using True e4 b3 b4 e2 e3 b1 b2 p4 p1 by linarith
    have q: "0 \<le> m100" "m100 \<le> 3" "0 \<le> m4" "m4 \<le> 24"
      using p100 p4 True unfolding m4_def m100_def by auto
    have q4: "m4 \<noteq> 24 \<or> m100 = 3"
    proof (cases "n100 = 4")
      case True
      then show ?thesis by (simp add: m100_def)
    next
      case False
      with True have "n1 = 4" by simp
      then have "n4 \<le> 23" using e3 e4 b2 b4 by linarith
      then show ?thesis using False by (simp add: m4_def)
    qed
    have yy: "y - 1 = n400 * 400 + 1 + m100 * 100 + m4 * 4 + 3"
    proof (cases "n100 = 4")
      case True
      then have "r2 = 0" using e2 b1 b2 by linarith
      then have "n4 = 0" "n1 = 0" using e3 e4 b3 b4 p4 p1 by linarith+
      then show ?thesis using True by (simp add: y_def m100_def m4_def)
    next
      case False
      with True have "n1 = 4" by simp
      then show ?thesis using False by (simp add: y_def m100_def m4_def)
    qed
    have dby: "days_before_year (y - 1) = 146097 * n400 + 36524 * m100 + 1461 * m4 + 365 * 3"
      unfolding yy by (rule days_before_year_cycles) (use p400 q in simp_all)
    have lp: "is_leap (y - 1)"
      unfolding yy using is_leap_cycles [of n400 m100 m4 3] p400 q q4 by simp
    have tot: "146097 * n400 + 36524 * m100 + 1461 * m4 + 365 * 3 + 366 = n"
    proof (cases "n100 = 4")
      case True
      then have "r2 = 0" using e2 b1 b2 by linarith
      then show ?thesis using True e1 e2 unfolding n0_def m100_def m4_def by simp
    next
      case False
      with \<open>n1 = 4 \<or> n100 = 4\<close> have "n1 = 4" by simp
      then show ?thesis using False e1 e2 e3 e4 z unfolding n0_def m100_def m4_def by simp
    qed
    have ord: "ymd2ord (y - 1) 12 31 = n"
      unfolding ymd2ord_def days_before_month_def dby using lp tot
      by (simp add: days_before_month_tab_def)
    have yb: "1 \<le> y - 1" "y - 1 \<le> 9999"
    proof -
      show "1 \<le> y - 1" unfolding yy using p400 q by linarith
      have "days_before_year (y - 1) + 366 \<le> 3652059" unfolding dby using tot n by linarith
      then have "days_before_year (y - 1) < days_before_year 10000"
        by (simp add: days_before_year_def)
      then have "\<not> 10000 \<le> y - 1" using days_before_year_mono [of 10000 "y - 1"] by linarith
      then show "y - 1 \<le> 9999" by simp
    qed
    have "ord2ymd n = (y - 1, 12, 31)" unfolding unfold using True by simp
    moreover have "(31::int) \<le> days_in_month (y - 1) 12"
      by (simp add: days_in_month_def days_in_month_tab_def)
    ultimately show ?thesis using ord yb by simp
  next
    case False
    then have r: "n100 \<le> 3" "n1 \<le> 3" using p100 p1 by linarith+
    define leapyear where "leapyear = (n1 = 3 \<and> (n4 \<noteq> 24 \<or> n100 = 3))"
    define m where "m = (r4 + 50) div 32"
    define preceding where "preceding = days_before_month_tab ! nat (m - 1)
                            + (if m > 2 \<and> leapyear then 1 else 0)"
    define m' where "m' = (if preceding > r4 then m - 1 else m)"
    define preceding' where "preceding' =
                (if preceding > r4
                 then preceding
                        - (days_in_month_tab ! nat (m' - 1)
                             + (if m' = 2 \<and> leapyear then 1 else 0))
                 else preceding)"
    have mp: "1 \<le> m' \<and> m' \<le> 12
        \<and> preceding' = days_before_month_tab ! nat (m' - 1) + (if m' > 2 \<and> leapyear then 1 else 0)
        \<and> preceding' \<le> r4
        \<and> r4 - preceding' + 1
            \<le> days_in_month_tab ! nat (m' - 1) + (if m' = 2 \<and> leapyear then 1 else 0)"
      unfolding preceding'_def m'_def preceding_def m_def by (rule month_part [OF b4])
    have res: "ord2ymd n = (y, m', r4 - preceding' + 1)"
      unfolding unfold using False
      by (simp add: Let_def leapyear_def m_def preceding_def m'_def preceding'_def)
    have dby: "days_before_year y = 146097 * n400 + 36524 * n100 + 1461 * n4 + 365 * n1"
      unfolding y_def by (rule days_before_year_cycles) (use p400 p100 p4 p1 r in simp_all)
    have lp: "is_leap y = leapyear"
      unfolding y_def leapyear_def by (rule is_leap_cycles) (use p400 p100 p4 p1 r in simp_all)
    have dbm: "days_before_month y m' = preceding'"
      unfolding days_before_month_def lp using mp by simp
    have ord: "ymd2ord y m' (r4 - preceding' + 1) = n"
      unfolding ymd2ord_def dbm dby using e1 e2 e3 e4 unfolding n0_def by simp
    have dim: "r4 - preceding' + 1 \<le> days_in_month y m'"
    proof -
      have "days_in_month y m'
          = days_in_month_tab ! nat (m' - 1) + (if m' = 2 \<and> leapyear then 1 else 0)"
        unfolding days_in_month_def lp by (simp add: days_in_month_tab_def)
      with mp show ?thesis by simp
    qed
    have yb: "1 \<le> y" "y \<le> 9999"
    proof -
      show "1 \<le> y" unfolding y_def using p400 p100 p4 p1 by linarith
      have "days_before_year y < days_before_year 10000"
        unfolding dby using e1 e2 e3 e4 b4 n unfolding n0_def
        by (simp add: days_before_year_def)
      then have "\<not> 10000 \<le> y" using days_before_year_mono [of 10000 y] by linarith
      then show "y \<le> 9999" by simp
    qed
    show ?thesis using res ord dim yb mp by simp
  qed
qed

lemma month_cases:
  "1 \<le> m \<Longrightarrow> m \<le> 12 \<Longrightarrow>
   m = 1 \<or> m = 2 \<or> m = 3 \<or> m = 4 \<or> m = 5 \<or> m = 6 \<or> m = 7 \<or> m = 8 \<or> m = 9
     \<or> m = 10 \<or> m = 11 \<or> m = (12::int)"
  by presburger

lemma days_before_month_next:
  assumes "1 \<le> m" "m \<le> 11"
  shows "days_before_month y (m + 1) = days_before_month y m + days_in_month y m"
    and "28 \<le> days_in_month y m"
proof -
  have c: "m = 1 \<or> m = 2 \<or> m = 3 \<or> m = 4 \<or> m = 5 \<or> m = 6 \<or> m = 7 \<or> m = 8 \<or> m = 9
     \<or> m = 10 \<or> m = 11 \<or> m = 12"
    using assms by (intro month_cases) simp_all
  show "days_before_month y (m + 1) = days_before_month y m + days_in_month y m"
    using c assms
    by (elim disjE)
      (simp_all add: days_before_month_def days_in_month_def days_before_month_tab_def
        days_in_month_tab_def)
  show "28 \<le> days_in_month y m"
    using c assms
    by (elim disjE) (simp_all add: days_in_month_def days_in_month_tab_def)
qed

lemma days_before_month_last:
  "days_before_month y 12 + days_in_month y 12 = 365 + (if is_leap y then 1 else 0)"
  "0 \<le> days_before_month y 1"
  by (simp_all add: days_before_month_def days_in_month_def days_before_month_tab_def
      days_in_month_tab_def)

lemma days_before_month_mono_nat:
  "1 \<le> m \<Longrightarrow> m + int k \<le> 12 \<Longrightarrow> days_before_month y m \<le> days_before_month y (m + int k)"
proof (induction k)
  case 0
  then show ?case by simp
next
  case (Suc k)
  have b: "1 \<le> m + int k" "m + int k \<le> 11" using Suc.prems by simp_all
  have e: "m + int (Suc k) = (m + int k) + 1" by simp
  have "days_before_month y (m + int k) \<le> days_before_month y (m + int (Suc k))"
    unfolding e using days_before_month_next [OF b, of y] by simp
  moreover have "days_before_month y m \<le> days_before_month y (m + int k)"
    using Suc.IH Suc.prems by simp
  ultimately show ?case by simp
qed

lemma days_before_month_mono:
  "1 \<le> m \<Longrightarrow> m \<le> m' \<Longrightarrow> m' \<le> 12 \<Longrightarrow> days_before_month y m \<le> days_before_month y m'"
  using days_before_month_mono_nat [of m "nat (m' - m)" y] by simp

lemma day_of_year_bounds:
  assumes "1 \<le> m" "m \<le> 12" "1 \<le> d" "d \<le> days_in_month y m"
  shows "0 < days_before_month y m + d"
    and "days_before_month y m + d \<le> 365 + (if is_leap y then 1 else 0)"
proof -
  have "days_before_month y 1 \<le> days_before_month y m"
    using assms by (intro days_before_month_mono) simp_all
  then show "0 < days_before_month y m + d"
    using days_before_month_last(2) [of y] assms by linarith
  have "days_before_month y m + days_in_month y m \<le> days_before_month y 12 + days_in_month y 12"
  proof (cases "m = 12")
    case True
    then show ?thesis by simp
  next
    case False
    then have b: "1 \<le> m" "m \<le> 11" using assms by simp_all
    have "days_before_month y (m + 1) \<le> days_before_month y 12"
      using b by (intro days_before_month_mono) simp_all
    moreover have "0 \<le> days_in_month y 12"
      by (simp add: days_in_month_def days_in_month_tab_def)
    ultimately show ?thesis using days_before_month_next(1) [OF b, of y] by linarith
  qed
  then show "days_before_month y m + d \<le> 365 + (if is_leap y then 1 else 0)"
    using days_before_month_last(1) [of y] assms by linarith
qed

lemma ymd2ord_less:
  assumes v: "1 \<le> m" "m \<le> 12" "1 \<le> d" "d \<le> days_in_month y m"
    and v': "1 \<le> m'" "m' \<le> 12" "1 \<le> d'" "d' \<le> days_in_month y' m'"
    and lex: "y < y' \<or> y = y' \<and> (m < m' \<or> m = m' \<and> d < d')"
  shows "ymd2ord y m d < ymd2ord y' m' d'"
proof -
  consider "y < y'" | "y = y'" "m < m'" | "y = y'" "m = m'" "d < d'" using lex by blast
  then show ?thesis
  proof cases
    case 1
    have "ymd2ord y m d \<le> days_before_year y + 365 + (if is_leap y then 1 else 0)"
      unfolding ymd2ord_def using day_of_year_bounds(2) [OF v] by linarith
    also have "\<dots> = days_before_year (y + 1)" by (simp add: days_before_year_step)
    also have "\<dots> \<le> days_before_year y'" using 1 by (intro days_before_year_mono) simp
    also have "\<dots> < ymd2ord y' m' d'"
      unfolding ymd2ord_def using day_of_year_bounds(1) [OF v'] by linarith
    finally show ?thesis .
  next
    case 2
    have b: "1 \<le> m" "m \<le> 11" using v 2 v' by simp_all
    have "days_before_month y m + d \<le> days_before_month y (m + 1)"
      using days_before_month_next(1) [OF b, of y] v by linarith
    also have "\<dots> \<le> days_before_month y m'"
      using 2 v' b by (intro days_before_month_mono) simp_all
    finally show ?thesis unfolding ymd2ord_def using 2 v' by simp
  next
    case 3
    then show ?thesis unfolding ymd2ord_def by simp
  qed
qed

lemma ord2ymd_mono:
  assumes "1 \<le> n" "n < n'" "n' \<le> 3652059"
  shows "\<exists>y m d y' m' d'. ord2ymd n = (y, m, d) \<and> ord2ymd n' = (y', m', d')
           \<and> (y < y' \<or> y = y' \<and> (m < m' \<or> m = m' \<and> d < d'))"
proof -
  obtain y m d where a: "ord2ymd n = (y, m, d)" "1 \<le> m" "m \<le> 12" "1 \<le> d"
      "d \<le> days_in_month y m" "ymd2ord y m d = n"
    using ord2ymd_inverse [of n] assms by auto
  obtain y' m' d' where b: "ord2ymd n' = (y', m', d')" "1 \<le> m'" "m' \<le> 12" "1 \<le> d'"
      "d' \<le> days_in_month y' m'" "ymd2ord y' m' d' = n'"
    using ord2ymd_inverse [of n'] assms by auto
  have "y < y' \<or> y = y' \<and> (m < m' \<or> m = m' \<and> d < d')"
  proof (rule ccontr)
    assume "\<not> (y < y' \<or> y = y' \<and> (m < m' \<or> m = m' \<and> d < d'))"
    then consider "y = y'" "m = m'" "d = d'" | "y' < y \<or> y' = y \<and> (m' < m \<or> m' = m \<and> d' < d)"
      by linarith
    then show False
    proof cases
      case 1
      then show ?thesis using a(6) b(6) assms(2) by simp
    next
      case 2
      from ymd2ord_less [OF b(2-5) a(2-5) 2] show ?thesis using a(6) b(6) assms(2) by simp
    qed
  qed
  with a(1) b(1) show ?thesis by blast
qed

lemma days_in_month_le: "1 \<le> m \<Longrightarrow> m \<le> 12 \<Longrightarrow> days_in_month y m \<le> 31"
proof -
  assume h: "1 \<le> m" "m \<le> 12"
  have "m = 1 \<or> m = 2 \<or> m = 3 \<or> m = 4 \<or> m = 5 \<or> m = 6 \<or> m = 7 \<or> m = 8 \<or> m = 9
     \<or> m = 10 \<or> m = 11 \<or> m = 12"
    using h by (rule month_cases)
  then show ?thesis
    by (elim disjE) (simp_all add: days_in_month_def days_in_month_tab_def)
qed

lemma sub_days_fields:
  assumes "sub_days now e = Inr t"
  shows "1 \<le> toordinal now - e" and "toordinal now - e \<le> 3652059"
    and "ord2ymd (toordinal now - e) = (year t, month t, day t)"
    and "hour t = hour now" and "minute t = minute now" and "second t = second now"
  using assms by (auto simp: sub_days_def Let_def split: if_splits prod.splits)

lemma sub_days_fixed_width:
  assumes "sub_days now e = Inr t" and "valid_time now" and "1000 \<le> year t"
  shows "fixed_width t"
proof -
  note f = sub_days_fields [OF assms(1)]
  obtain y m d where a: "ord2ymd (toordinal now - e) = (y, m, d)" "y \<le> 9999" "1 \<le> m" "m \<le> 12"
      "1 \<le> d" "d \<le> days_in_month y m"
    using ord2ymd_inverse [OF f(1,2)] by auto
  have "d \<le> 31" using a(6) days_in_month_le [OF a(3,4), of y] by linarith
  moreover have "year t = y" "month t = m" "day t = d" using a(1) f(3) by simp_all
  ultimately show ?thesis
    using a assms(2,3) f(4-6) unfolding fixed_width_def valid_time_def by simp
qed

lemma sub_days_before:
  assumes t: "sub_days now e = Inr t" and c: "sub_days now d = Inr c"
  shows "second_before t c = (d < e)"
proof -
  note ft = sub_days_fields [OF t]
  note fc = sub_days_fields [OF c]
  have same: "hour t = hour c" "minute t = minute c" "second t = second c"
    using ft fc by simp_all
  consider "d < e" | "d = e" | "e < d" by linarith
  then show ?thesis
  proof cases
    case 1
    have "\<exists>y m dd y' m' d'. ord2ymd (toordinal now - e) = (y, m, dd)
        \<and> ord2ymd (toordinal now - d) = (y', m', d')
        \<and> (y < y' \<or> y = y' \<and> (m < m' \<or> m = m' \<and> dd < d'))"
      using 1 ft(1) fc(2) by (intro ord2ymd_mono) simp_all
    then have "year t < year c \<or> year t = year c \<and>
        (month t < month c \<or> month t = month c \<and> day t < day c)"
      unfolding ft(3) fc(3) by simp
    then show ?thesis using 1 unfolding second_before_def by blast
  next
    case 2
    then have "t = c" using t c by simp
    then show ?thesis using 2 unfolding second_before_def by simp
  next
    case 3
    have "\<exists>y m dd y' m' d'. ord2ymd (toordinal now - d) = (y, m, dd)
        \<and> ord2ymd (toordinal now - e) = (y', m', d')
        \<and> (y < y' \<or> y = y' \<and> (m < m' \<or> m = m' \<and> dd < d'))"
      using 3 fc(1) ft(2) by (intro ord2ymd_mono) simp_all
    then have "year c < year t \<or> year c = year t \<and>
        (month c < month t \<or> month c = month t \<and> day c < day t)"
      unfolding ft(3) fc(3) by simp
    then show ?thesis using 3 same unfolding second_before_def by auto
  qed
qed

lemma sub_days_Inr_iff:
  "(\<exists>c. sub_days dt n = Inr c) \<longleftrightarrow> \<bar>n\<bar> \<le> 999999999 \<and> n < toordinal dt \<and> toordinal dt - n \<le> 3652059"
  by (auto simp: sub_days_def Let_def split: prod.splits)

lemma filter_length_compl:
  "int (length (filter P xs)) = int (length xs) - int (length (filter (\<lambda>x. \<not> P x) xs))"
  using sum_length_filter_compl [of P xs] by simp

text \<open>
  What \<^verbatim>\<open>expire_old\<close> does where the date arithmetic and the format hold. For a
  non-positive \<^verbatim>\<open>max_age_days\<close> the call changes nothing and returns 0. For a positive
  one for which the clock's reading minus that many days is a date the library can
  represent, the call deletes exactly the entries whose \<^verbatim>\<open>last_seen\<close> is smaller, as a
  string, than that cutoff in the format of the store, keeps the others in their order
  and returns the number deleted. When the cutoff has a year of four digits, an entry
  with a well-formed timestamp is deleted exactly when it lies in an earlier second than
  the cutoff, and an entry last seen a whole number of days before the clock's reading is
  deleted exactly when that number is greater than \<^verbatim>\<open>max_age_days\<close>.
\<close>

lemma expire_old_in_range:
  "(max_age_days \<le> 0 \<longrightarrow> expire_old now conn max_age_days = Inr (conn, 0))
   \<and> (0 < max_age_days \<and> sub_days now max_age_days = Inr cutoff \<longrightarrow>
        (\<exists>conn' n. expire_old now conn max_age_days = Inr (conn', n)
           \<and> conn' = filter (\<lambda>r. strftime cutoff \<le> last_seen r) conn
           \<and> set conn' = {r \<in> set conn. \<not> last_seen r < strftime cutoff}
           \<and> mset conn - mset conn' = filter_mset (\<lambda>r. last_seen r < strftime cutoff) (mset conn)
           \<and> n = int (length conn) - int (length conn')
           \<and> (fixed_width cutoff \<longrightarrow>
                (\<forall>r\<in>set conn. \<forall>t. fixed_width t \<and> last_seen r = strftime t \<longrightarrow>
                   (r \<in> set conn') = (\<not> second_before t cutoff)))
           \<and> (valid_time now \<and> 1000 \<le> year cutoff \<longrightarrow>
                (\<forall>r\<in>set conn. \<forall>age t.
                   sub_days now age = Inr t \<and> 1000 \<le> year t \<and> last_seen r = strftime t \<longrightarrow>
                   (r \<in> set conn') = (age \<le> max_age_days)))))
   \<and> (0 < max_age_days \<longrightarrow>
        (\<exists>c. sub_days now max_age_days = Inr c)
          = (max_age_days \<le> 999999999 \<and> max_age_days < toordinal now
             \<and> toordinal now - max_age_days \<le> 3652059))
   \<and> (0 < max_age_days \<and> sub_days now max_age_days = Inl e \<longrightarrow>
        expire_old now conn max_age_days = Inl e)"
proof -
  let ?c = "strftime cutoff"
  let ?conn' = "filter (\<lambda>r. ?c \<le> last_seen r) conn"
  have f: "filter (\<lambda>r. \<not> last_seen r < ?c) conn = ?conn'"
    by (simp add: not_less)
  have m: "mset conn - mset ?conn' = filter_mset (\<lambda>r. last_seen r < ?c) (mset conn)"
  proof -
    have "mset conn = filter_mset (\<lambda>r. last_seen r < ?c) (mset conn)
        + filter_mset (\<lambda>r. \<not> last_seen r < ?c) (mset conn)"
      by simp
    then have "mset conn - filter_mset (\<lambda>r. \<not> last_seen r < ?c) (mset conn)
        = filter_mset (\<lambda>r. last_seen r < ?c) (mset conn)"
      by (metis add_diff_cancel_right')
    then show ?thesis by (simp add: not_less)
  qed
  have n: "int (length (filter (\<lambda>r. last_seen r < ?c) conn))
      = int (length conn) - int (length ?conn')"
    using filter_length_compl [of "\<lambda>r. last_seen r < ?c" conn] by (simp add: not_less)
  have s: "set ?conn' = {r \<in> set conn. \<not> last_seen r < ?c}"
    by (auto simp: not_less)
  have chrono: "\<forall>r\<in>set conn. \<forall>t. fixed_width t \<and> last_seen r = strftime t \<longrightarrow>
                   (r \<in> set ?conn') = (\<not> second_before t cutoff)"
    if fw: "fixed_width cutoff"
  proof (intro ballI allI impI)
    fix r t assume r: "r \<in> set conn" and t: "fixed_width t \<and> last_seen r = strftime t"
    have "(r \<in> set ?conn') = (\<not> strftime t < ?c)" using r t by (simp add: not_less)
    also have "\<dots> = (\<not> second_before t cutoff)" using strftime_less_iff [of t cutoff] t fw by simp
    finally show "(r \<in> set ?conn') = (\<not> second_before t cutoff)" .
  qed
  have run: "expire_old now conn max_age_days
      = Inr (?conn', int (length (filter (\<lambda>r. last_seen r < ?c) conn)))"
    if "0 < max_age_days" "sub_days now max_age_days = Inr cutoff"
    using that f by (simp add: expire_old_def Let_def)
  have main: "\<exists>conn' n. expire_old now conn max_age_days = Inr (conn', n)
           \<and> conn' = filter (\<lambda>r. strftime cutoff \<le> last_seen r) conn
           \<and> set conn' = {r \<in> set conn. \<not> last_seen r < strftime cutoff}
           \<and> mset conn - mset conn' = filter_mset (\<lambda>r. last_seen r < strftime cutoff) (mset conn)
           \<and> n = int (length conn) - int (length conn')
           \<and> (fixed_width cutoff \<longrightarrow>
                (\<forall>r\<in>set conn. \<forall>t. fixed_width t \<and> last_seen r = strftime t \<longrightarrow>
                   (r \<in> set conn') = (\<not> second_before t cutoff)))
           \<and> (valid_time now \<and> 1000 \<le> year cutoff \<longrightarrow>
                (\<forall>r\<in>set conn. \<forall>age t.
                   sub_days now age = Inr t \<and> 1000 \<le> year t \<and> last_seen r = strftime t \<longrightarrow>
                   (r \<in> set conn') = (age \<le> max_age_days)))"
    if h: "0 < max_age_days" "sub_days now max_age_days = Inr cutoff"
  proof -
    have days: "\<forall>r\<in>set conn. \<forall>age t.
                   sub_days now age = Inr t \<and> 1000 \<le> year t \<and> last_seen r = strftime t \<longrightarrow>
                   (r \<in> set ?conn') = (age \<le> max_age_days)"
      if vt: "valid_time now \<and> 1000 \<le> year cutoff"
    proof (intro ballI allI impI)
      fix r age t
      assume r: "r \<in> set conn"
        and a: "sub_days now age = Inr t \<and> 1000 \<le> year t \<and> last_seen r = strftime t"
      have fc: "fixed_width cutoff"
        using sub_days_fixed_width [OF h(2)] vt by simp
      have ft: "fixed_width t"
        using sub_days_fixed_width [of now age t] a vt by simp
      have "(r \<in> set ?conn') = (\<not> second_before t cutoff)"
        using chrono [OF fc] r ft a by blast
      also have "\<dots> = (age \<le> max_age_days)"
        using sub_days_before [of now age t max_age_days cutoff] a h(2) by auto
      finally show "(r \<in> set ?conn') = (age \<le> max_age_days)" .
    qed
    show ?thesis
      by (intro exI [where x = ?conn']
          exI [where x = "int (length (filter (\<lambda>r. last_seen r < ?c) conn))"]
          conjI run [OF h] refl s m n impI chrono days)
        simp_all
  qed
  have noop: "expire_old now conn max_age_days = Inr (conn, 0)" if "max_age_days \<le> 0"
    using that by (simp add: expire_old_def)
  have rep: "(\<exists>c. sub_days now max_age_days = Inr c)
          = (max_age_days \<le> 999999999 \<and> max_age_days < toordinal now
             \<and> toordinal now - max_age_days \<le> 3652059)" if "0 < max_age_days"
    using that sub_days_Inr_iff [of now max_age_days] by simp
  have err: "expire_old now conn max_age_days = Inl e"
    if "0 < max_age_days" "sub_days now max_age_days = Inl e"
    using that by (simp add: expire_old_def)
  show ?thesis
    using noop main rep err by blast
qed

text \<open>
  An instance: with 30 days, the entry last seen 31 days before the clock's reading goes,
  the entries at the cutoff and 29 days back stay.
\<close>

lemma sub_days_now_a:
  "sub_days now_a 30 = Inr (now_a\<lparr>year := 2026, month := 10, day := 5\<rparr>)"
  "sub_days now_a 31 = Inr (now_a\<lparr>year := 2026, month := 10, day := 4\<rparr>)"
  "sub_days now_a 29 = Inr (now_a\<lparr>year := 2026, month := 10, day := 6\<rparr>)"
  by code_simp+

lemma strftime_cutoffs:
  "strftime (now_a\<lparr>year := 2026, month := 10, day := 5\<rparr>) = ''2026-10-05T12:00:00Z''"
  "strftime (now_a\<lparr>year := 2026, month := 10, day := 4\<rparr>) = ''2026-10-04T12:00:00Z''"
  "strftime (now_a\<lparr>year := 2026, month := 10, day := 6\<rparr>) = ''2026-10-06T12:00:00Z''"
  by code_simp+

lemma expire_old_thirty_days:
  "expire_old now_a
     [row_at ''old'' ''2026-10-04T12:00:00Z'', row_at ''edge'' ''2026-10-05T12:00:00Z'',
      row_at ''new'' ''2026-10-06T12:00:00Z''] 30
     = Inr ([row_at ''edge'' ''2026-10-05T12:00:00Z'', row_at ''new'' ''2026-10-06T12:00:00Z''], 1)"
  using expire_old_in_range [where max_age_days = 30 and now = now_a
      and conn = "[row_at ''old'' ''2026-10-04T12:00:00Z'',
        row_at ''edge'' ''2026-10-05T12:00:00Z'', row_at ''new'' ''2026-10-06T12:00:00Z'']"
      and cutoff = "now_a\<lparr>year := 2026, month := 10, day := 5\<rparr>"]
  by (simp add: sub_days_now_a strftime_cutoffs row_at_def)

text \<open>
  C7: the claim is that for every positive \<^verbatim>\<open>max_age\<close> the call deletes exactly the entries
  last seen strictly before the clock's reading minus \<^verbatim>\<open>max_age\<close> and returns their
  number. \<^verbatim>\<open>expire_old\<close> breaks it for large ages. With the clock at 2026-11-04 12:00:00
  and 400000 days the cutoff lies in the year 931, which the format prints with three
  digits: the entry seen at the clock's reading is smaller as a string and is deleted,
  though the cutoff is eleven centuries before it, not after it. With 1000000 days the subtraction
  leaves the dates of the library and raises, and no count is returned.
\<close>

theorem expire_old_failing_inputs:
  "strftime now_a = ''2026-11-04T12:00:00Z''
   \<and> sub_days now_a 400000
     = Inr (now_a\<lparr>year := 931, month := 9, day := 6\<rparr>)
   \<and> strftime (now_a\<lparr>year := 931, month := 9, day := 6\<rparr>) = ''931-09-06T12:00:00Z''
   \<and> second_before (now_a\<lparr>year := 931, month := 9, day := 6\<rparr>) now_a
   \<and> \<not> second_before now_a (now_a\<lparr>year := 931, month := 9, day := 6\<rparr>)
   \<and> expire_old now_a [row_at ''k'' ''2026-11-04T12:00:00Z''] 400000 = Inr ([], 1)
   \<and> expire_old now_a [row_at ''k'' ''2026-11-04T12:00:00Z''] 1000000 = Inl OverflowError"
  by code_simp

lemma upsert_keys:
  "map key (upsert_notworker now conn k rw src seen_at) =
     (if k = [] \<or> k \<in> set (map key conn) then map key conn else map key conn @ [k])"
  by (auto simp: upsert_notworker_def Let_def)

lemma upsert_other_rows:
  "r' \<in> set (upsert_notworker now conn k rw src seen_at) \<Longrightarrow> key r' \<noteq> k \<Longrightarrow> r' \<in> set conn"
  by (auto simp: upsert_notworker_def Let_def split: if_splits)

lemma upsert_row_image:
  assumes "r \<in> set conn"
  shows "\<exists>r'\<in>set (upsert_notworker now conn k rw src seen_at).
           key r' = key r \<and> first_seen r' = first_seen r \<and> fail_count r \<le> fail_count r'"
proof (cases "k \<noteq> [] \<and> k \<in> set (map key conn)")
  case True
  define f where "f = (\<lambda>r::notworker. if key r = k
             then r\<lparr>raw := rw,
                     last_seen := (case seen_at of None \<Rightarrow> utc_now_str now | Some s \<Rightarrow> s),
                     fail_count := sqlite_add1 (fail_count r),
                     source := (case src of None \<Rightarrow> source r | Some s \<Rightarrow> Some s)\<rparr>
             else r)"
  have eq: "upsert_notworker now conn k rw src seen_at = map f conn"
    using True by (simp add: upsert_notworker_def Let_def f_def)
  have mem: "f r \<in> set (map f conn)" using assms by simp
  have "key (f r) = key r \<and> first_seen (f r) = first_seen r \<and> fail_count r \<le> fail_count (f r)"
    by (simp add: f_def sqlite_add1_ge)
  then show ?thesis unfolding eq using mem by (intro bexI [of _ "f r"])
next
  case False
  then have "r \<in> set (upsert_notworker now conn k rw src seen_at)"
    using assms by (auto simp: upsert_notworker_def Let_def)
  then show ?thesis by (intro bexI [of _ r]) simp_all
qed

lemma upsert_rows_cases:
  assumes "r' \<in> set (upsert_notworker now conn k rw src seen_at)"
  shows "r' \<in> set conn
     \<or> (k \<noteq> [] \<and> key r' = k \<and> last_seen r' = (case seen_at of None \<Rightarrow> utc_now_str now | Some s \<Rightarrow> s)
         \<and> ((k \<notin> set (map key conn) \<and> first_seen r' = last_seen r' \<and> fail_count r' = 1)
            \<or> (\<exists>r\<in>set conn. key r = k \<and> first_seen r' = first_seen r
                  \<and> fail_count r' = sqlite_add1 (fail_count r))))"
  using assms by (auto simp: upsert_notworker_def Let_def split: if_splits)

lemma upsert_key_inv:
  assumes "key_inv conn"
  shows "key_inv (upsert_notworker now conn k rw src seen_at)"
proof -
  have d: "distinct (map key (upsert_notworker now conn k rw src seen_at))"
    using assms by (simp add: upsert_keys key_inv_def)
  have "1 \<le> fail_count r'"
    if "r' \<in> set (upsert_notworker now conn k rw src seen_at)" for r'
  proof -
    from upsert_rows_cases [OF that] show ?thesis
    proof (elim disjE conjE bexE)
      assume "r' \<in> set conn"
      then show ?thesis using assms unfolding key_inv_def by blast
    next
      assume "fail_count r' = 1"
      then show ?thesis by simp
    next
      fix x assume "x \<in> set conn" "fail_count r' = sqlite_add1 (fail_count x)"
      then show ?thesis using assms sqlite_add1_ge [of "fail_count x"] unfolding key_inv_def
        by fastforce
    qed
  qed
  with d show ?thesis unfolding key_inv_def by blast
qed

lemma upsert_time_inv:
  assumes "time_inv conn"
    and "\<forall>r\<in>set conn. key r = k \<longrightarrow>
           first_seen r \<le> (case seen_at of None \<Rightarrow> utc_now_str now | Some s \<Rightarrow> s)"
  shows "time_inv (upsert_notworker now conn k rw src seen_at)"
proof -
  have "first_seen r' \<le> last_seen r'"
    if "r' \<in> set (upsert_notworker now conn k rw src seen_at)" for r'
    using upsert_rows_cases [OF that] assms unfolding time_inv_def by fastforce
  then show ?thesis unfolding time_inv_def by blast
qed

lemma upsert_fail_count_mono:
  assumes "key_inv conn" and "r \<in> set conn"
    and "r' \<in> set (upsert_notworker now conn k rw src seen_at)" and "key r' = key r"
  shows "fail_count r \<le> fail_count r'"
proof -
  have uniq: "x = r" if "x \<in> set conn" "key x = key r" for x
    using assms(1,2) that unfolding key_inv_def by (meson distinct_map inj_onD)
  from upsert_rows_cases [OF assms(3)] show ?thesis
  proof (elim disjE conjE bexE)
    assume "r' \<in> set conn"
    then show ?thesis using uniq assms(4) by auto
  next
    assume "key r' = k" "k \<notin> set (map key conn)"
    then show ?thesis using assms(2,4) by force
  next
    fix x assume "x \<in> set conn" "key x = k" "key r' = k"
      "fail_count r' = sqlite_add1 (fail_count x)"
    then show ?thesis using uniq [of x] assms(4) sqlite_add1_ge [of "fail_count x"] by simp
  qed
qed

lemma subseq_set_subset: "subseq xs ys \<Longrightarrow> set xs \<subseteq> set ys"
  by (auto dest: list_emb_set)

lemma key_inv_subseq:
  assumes "key_inv conn" and "subseq conn' conn"
  shows "key_inv conn'"
proof -
  have "subseq (map key conn') (map key conn)" using assms(2) by (rule subseq_map)
  then have "map key conn' \<in> set (subseqs (map key conn))" by simp
  then have "distinct (map key conn')"
    using assms(1) unfolding key_inv_def by (blast intro: subseqs_distinctD)
  moreover have "set conn' \<subseteq> set conn"
    using assms(2) by (rule subseq_set_subset)
  ultimately show ?thesis using assms(1) unfolding key_inv_def by blast
qed

lemma time_inv_subseq:
  assumes "time_inv conn" and "subseq conn' conn"
  shows "time_inv conn'"
  using assms subseq_set_subset [of conn' conn] unfolding time_inv_def by blast

lemma migrate_loop_step:
  "fst (migrate_loop clock i src ((norm, full) # items) conn ins upd)
     = fst (migrate_loop clock (Suc i) src items
              (upsert_notworker (clock i) conn norm full (Some src) None)
              (if norm \<in> set (map key conn) then ins else ins + 1)
              (if norm \<in> set (map key conn) then upd + 1 else upd))"
  by (simp add: Let_def)

lemma migrate_loop_key_inv:
  assumes "key_inv conn"
  shows "key_inv (fst (migrate_loop clock i src items conn ins upd))
     \<and> (\<forall>r\<in>set conn. \<exists>r'\<in>set (fst (migrate_loop clock i src items conn ins upd)).
           key r' = key r \<and> fail_count r \<le> fail_count r')"
  using assms
proof (induction items arbitrary: conn i ins upd)
  case Nil
  then show ?case by auto
next
  case (Cons item items)
  obtain norm full where item: "item = (norm, full)" by (cases item)
  define conn' where "conn' = upsert_notworker (clock i) conn norm full (Some src) None"
  define ins' where "ins' = (if norm \<in> set (map key conn) then ins else ins + 1)"
  define upd' where "upd' = (if norm \<in> set (map key conn) then upd + 1 else upd)"
  have inv': "key_inv conn'"
    unfolding conn'_def using Cons.prems by (rule upsert_key_inv)
  note ih = Cons.IH [OF inv', of "Suc i" ins' upd']
  have step: "fst (migrate_loop clock i src (item # items) conn ins upd)
      = fst (migrate_loop clock (Suc i) src items conn' ins' upd')"
    unfolding item conn'_def ins'_def upd'_def by (rule migrate_loop_step)
  have "\<exists>r''\<in>set (fst (migrate_loop clock (Suc i) src items conn' ins' upd')).
          key r'' = key r \<and> fail_count r \<le> fail_count r''" if rin: "r \<in> set conn" for r
  proof -
    obtain r' where r': "r' \<in> set conn'" "key r' = key r" "fail_count r \<le> fail_count r'"
      using upsert_row_image [OF rin, where now = "clock i" and k = norm and rw = full
          and src = "Some src" and seen_at = None]
      unfolding conn'_def by blast
    with ih obtain r'' where "r'' \<in> set (fst (migrate_loop clock (Suc i) src items conn' ins' upd'))"
        "key r'' = key r'" "fail_count r' \<le> fail_count r''"
      by blast
    then show ?thesis using r' by (intro bexI [of _ r'']) auto
  qed
  then show ?case using ih unfolding step by blast
qed

lemma migrate_loop_time_inv:
  assumes "time_inv conn" and "distinct (map fst items)"
    and "\<forall>j<length items. \<forall>r\<in>set conn. key r = fst (items ! j) \<longrightarrow>
           first_seen r \<le> utc_now_str (clock (i + j))"
  shows "time_inv (fst (migrate_loop clock i src items conn ins upd))"
  using assms
proof (induction items arbitrary: conn i ins upd)
  case Nil
  then show ?case by simp
next
  case (Cons item items)
  obtain norm full where item: "item = (norm, full)" by (cases item)
  define conn' where "conn' = upsert_notworker (clock i) conn norm full (Some src) None"
  define ins' where "ins' = (if norm \<in> set (map key conn) then ins else ins + 1)"
  define upd' where "upd' = (if norm \<in> set (map key conn) then upd + 1 else upd)"
  have t0: "\<forall>r\<in>set conn. key r = norm \<longrightarrow> first_seen r \<le> utc_now_str (clock i)"
    using Cons.prems(3) item by fastforce
  have inv': "time_inv conn'"
    unfolding conn'_def
    using upsert_time_inv [OF Cons.prems(1), where k = norm and seen_at = None and now = "clock i"] t0
    by simp
  have d': "distinct (map fst items)" and fresh: "norm \<notin> set (map fst items)"
    using Cons.prems(2) item by simp_all
  have t': "\<forall>j<length items. \<forall>r\<in>set conn'. key r = fst (items ! j) \<longrightarrow>
           first_seen r \<le> utc_now_str (clock (Suc i + j))"
  proof (intro allI impI ballI)
    fix j r assume j: "j < length items" and r: "r \<in> set conn'" and k: "key r = fst (items ! j)"
    have "fst (items ! j) \<in> set (map fst items)" using j by simp
    then have "key r \<noteq> norm" using fresh k by metis
    then have "r \<in> set conn" using r unfolding conn'_def by (rule upsert_other_rows [rotated])
    moreover have "Suc j < length (item # items)" using j by simp
    moreover have "key r = fst ((item # items) ! Suc j)" using k by simp
    ultimately have "first_seen r \<le> utc_now_str (clock (i + Suc j))"
      using Cons.prems(3) by blast
    then show "first_seen r \<le> utc_now_str (clock (Suc i + j))" by simp
  qed
  have step: "fst (migrate_loop clock i src (item # items) conn ins upd)
      = fst (migrate_loop clock (Suc i) src items conn' ins' upd')"
    unfolding item conn'_def ins'_def upd'_def by (rule migrate_loop_step)
  show ?case unfolding step by (rule Cons.IH [OF inv' d' t'])
qed

lemma fail_count_mono_from_image:
  assumes "distinct (map key conn')"
    and "\<forall>r\<in>set conn. \<exists>r'\<in>set conn'. key r' = key r \<and> fail_count r \<le> fail_count r'"
  shows "\<forall>r\<in>set conn. \<forall>r'\<in>set conn'. key r' = key r \<longrightarrow> fail_count r \<le> fail_count r'"
proof (intro ballI impI)
  fix r r' assume r: "r \<in> set conn" and r': "r' \<in> set conn'" and k: "key r' = key r"
  from assms(2) r obtain x where x: "x \<in> set conn'" "key x = key r" "fail_count r \<le> fail_count x"
    by blast
  have "x = r'" using assms(1) x(1,2) r' k by (metis distinct_map inj_onD)
  then show "fail_count r \<le> fail_count r'" using x(3) by simp
qed

lemma fail_count_mono_subset:
  assumes "key_inv conn" and "set conn' \<subseteq> set conn"
  shows "\<forall>r\<in>set conn. \<forall>r'\<in>set conn'. key r' = key r \<longrightarrow> fail_count r \<le> fail_count r'"
proof (intro ballI impI)
  fix r r' assume r: "r \<in> set conn" and r': "r' \<in> set conn'" and k: "key r' = key r"
  have "r' \<in> set conn" using r' assms(2) by blast
  then have "r' = r" using assms(1) r k unfolding key_inv_def by (metis distinct_map inj_onD)
  then show "fail_count r \<le> fail_count r'" by simp
qed

lemma prune_subseq: "subseq (fst (prune_to_max conn max_rows)) conn"
proof -
  have "subseq (map (\<lambda>i. conn ! i) (filter P [0..<length conn])) conn" for P
  proof -
    have "subseq (map (\<lambda>i. conn ! i) (filter P [0..<length conn]))
            (map (\<lambda>i. conn ! i) [0..<length conn])"
      by (rule subseq_map) simp
    then show ?thesis by (simp add: map_nth)
  qed
  then show ?thesis by (simp add: prune_to_max_def Let_def)
qed

lemma expire_subseq:
  "subseq (case expire_old now conn d of Inl e \<Rightarrow> conn | Inr (conn', n) \<Rightarrow> conn') conn"
  by (simp add: expire_old_def Let_def split: sum.splits)

lemma store_step_cases:
  "subseq (store_step clock conn op) conn
   \<or> (\<exists>k rw src seen_at. op = Upsert k rw src seen_at
         \<and> store_step clock conn op = upsert_notworker (clock 0) conn k rw src seen_at)
   \<or> (\<exists>items. op = Migrate (Some items) \<and> items \<noteq> []
         \<and> store_step clock conn op = fst (migrate_loop clock 0 ''flat'' items conn 0 0))"
proof (cases op)
  case (Upsert k rw src seen_at)
  then show ?thesis by simp
next
  case (Expire d)
  then show ?thesis using expire_subseq [where now = "clock 0" and conn = conn and d = d] by simp
next
  case (Prune m)
  then show ?thesis using prune_subseq [of conn m] by simp
next
  case (Migrate flat)
  show ?thesis
  proof (cases "flat = None \<or> flat = Some []")
    case True
    then have "store_step clock conn op = conn"
      unfolding Migrate by (auto simp: migrate_from_flat_def init_db_def)
    then show ?thesis by simp
  next
    case False
    then obtain items where flat: "flat = Some items" and ne: "items \<noteq> []" by auto
    have "store_step clock conn op = fst (migrate_loop clock 0 ''flat'' items conn 0 0)"
      unfolding Migrate flat using ne
      by (simp add: migrate_from_flat_def init_db_def split: prod.splits)
    then show ?thesis using Migrate flat ne by blast
  qed
qed

lemma store_step_key_inv:
  assumes inv: "key_inv conn"
  shows "key_inv (store_step clock conn op)
     \<and> (\<forall>r\<in>set conn. \<forall>r'\<in>set (store_step clock conn op).
           key r' = key r \<longrightarrow> fail_count r \<le> fail_count r')"
  using store_step_cases [where clock = clock and conn = conn and op = op]
proof (elim disjE exE conjE)
  assume s: "subseq (store_step clock conn op) conn"
  show ?thesis
    using key_inv_subseq [OF inv s] fail_count_mono_subset [OF inv subseq_set_subset [OF s]]
    by blast
next
  fix k rw src seen_at
  assume e: "store_step clock conn op = upsert_notworker (clock 0) conn k rw src seen_at"
  show ?thesis
    unfolding e using upsert_key_inv [OF inv] upsert_fail_count_mono [OF inv] by blast
next
  fix items
  assume e: "store_step clock conn op = fst (migrate_loop clock 0 ''flat'' items conn 0 0)"
  note l = migrate_loop_key_inv [OF inv, where src = "''flat''" and ins = 0 and upd = 0
      and clock = clock and i = 0 and items = items]
  have "distinct (map key (fst (migrate_loop clock 0 ''flat'' items conn 0 0)))"
    using l unfolding key_inv_def by blast
  from fail_count_mono_from_image [OF this] l show ?thesis unfolding e by blast
qed

lemma store_step_time_inv:
  assumes inv: "time_inv conn" and wf: "op_wf op" and ok: "stamps_ok clock conn op"
  shows "time_inv (store_step clock conn op)"
  using store_step_cases [where clock = clock and conn = conn and op = op]
proof (elim disjE exE conjE)
  assume s: "subseq (store_step clock conn op) conn"
  show ?thesis using time_inv_subseq [OF inv s] .
next
  fix k rw src seen_at
  assume o: "op = Upsert k rw src seen_at"
    and e: "store_step clock conn op = upsert_notworker (clock 0) conn k rw src seen_at"
  have t: "\<forall>r\<in>set conn. key r = k \<longrightarrow>
         first_seen r \<le> (case seen_at of None \<Rightarrow> utc_now_str (clock 0) | Some s \<Rightarrow> s)"
    using ok unfolding stamps_ok_def o by simp
  show ?thesis unfolding e using upsert_time_inv [OF inv t] .
next
  fix items
  assume o: "op = Migrate (Some items)"
    and e: "store_step clock conn op = fst (migrate_loop clock 0 ''flat'' items conn 0 0)"
  have d: "distinct (map fst items)" using wf unfolding o by simp
  have t: "\<forall>j<length items. \<forall>r\<in>set conn. key r = fst (items ! j) \<longrightarrow>
       first_seen r \<le> utc_now_str (clock (0 + j))"
    using ok unfolding stamps_ok_def o by simp
  show ?thesis unfolding e using migrate_loop_time_inv [OF inv d t] .
qed

lemma store_run_key_inv: "key_inv conn \<Longrightarrow> key_inv (store_run steps conn)"
  unfolding store_run_def
proof (induction steps arbitrary: conn)
  case Nil
  then show ?case by simp
next
  case (Cons step steps)
  obtain clock op where step: "step = (clock, op)" by (cases step)
  have "key_inv (store_step clock conn op)" using store_step_key_inv [OF Cons.prems] by blast
  from Cons.IH [OF this] show ?case unfolding step by simp
qed

text \<open>
  C5, as amended: the empty table that \<^verbatim>\<open>init_db\<close> creates satisfies the invariant. Every
  mutating operation (upsert, expire, prune, migrate) keeps the keys unique and every
  \<^verbatim>\<open>fail_count\<close> at least 1, from any store and with any arguments and clock, so both hold
  in every store reached from the empty table; and the \<^verbatim>\<open>fail_count\<close> of a key that is in
  the store before and after an operation does not decrease. That \<^verbatim>\<open>first_seen\<close> is at most
  \<^verbatim>\<open>last_seen\<close> in every entry is preserved when no observation time that the operation
  writes is earlier than the \<^verbatim>\<open>first_seen\<close> of the entry it updates (the keys of a
  migration, the items of a dict, being distinct). The invariant of the claim is the
  conjunction of the two parts.
\<close>

theorem store_invariant_preserved:
  "key_inv [] \<and> time_inv []
   \<and> key_inv (store_run steps [])
   \<and> (key_inv conn \<longrightarrow>
        key_inv (store_step clock conn op)
        \<and> (\<forall>r\<in>set conn. \<forall>r'\<in>set (store_step clock conn op).
              key r' = key r \<longrightarrow> fail_count r \<le> fail_count r'))
   \<and> (time_inv conn \<and> op_wf op \<and> stamps_ok clock conn op \<longrightarrow>
        time_inv (store_step clock conn op))
   \<and> store_inv conn = (key_inv conn \<and> time_inv conn)"
proof -
  have k0: "key_inv []" by (simp add: key_inv_def)
  have t0: "time_inv []" by (simp add: time_inv_def)
  have eq: "store_inv conn = (key_inv conn \<and> time_inv conn)"
    unfolding store_inv_def key_inv_def time_inv_def by blast
  show ?thesis
    using k0 t0 eq store_run_key_inv [OF k0, of steps] store_step_key_inv [of conn clock op]
      store_step_time_inv [of conn op clock]
    by blast
qed

theorem store_invariant_preserved_witness:
  "key_inv [row_at ''k'' ''2026-11-01T00:00:00Z'']
   \<and> time_inv [row_at ''k'' ''2026-11-01T00:00:00Z'']
   \<and> op_wf (Upsert ''k'' ''b'' None None)
   \<and> stamps_ok (\<lambda>i. now_a) [row_at ''k'' ''2026-11-01T00:00:00Z''] (Upsert ''k'' ''b'' None None)
   \<and> store_step (\<lambda>i. now_a) [row_at ''k'' ''2026-11-01T00:00:00Z''] (Upsert ''k'' ''b'' None None)
       = [\<lparr>key = ''k'', raw = ''b'', first_seen = ''2026-11-01T00:00:00Z'',
            last_seen = ''2026-11-04T12:00:00Z'', fail_count = 2, source = None\<rparr>]
   \<and> key_inv (store_step (\<lambda>i. now_a) [row_at ''k'' ''2026-11-01T00:00:00Z'']
                 (Upsert ''k'' ''b'' None None))
   \<and> time_inv (store_step (\<lambda>i. now_a) [row_at ''k'' ''2026-11-01T00:00:00Z'']
                  (Upsert ''k'' ''b'' None None))
   \<and> store_run [(\<lambda>i. now_a, Upsert ''k'' ''a'' None (Some ''2024-01-02T00:00:00Z'')),
                 (\<lambda>i. now_a, Upsert ''k'' ''b'' None (Some ''2024-01-01T00:00:00Z''))] []
       = [\<lparr>key = ''k'', raw = ''b'', first_seen = ''2024-01-02T00:00:00Z'',
            last_seen = ''2024-01-01T00:00:00Z'', fail_count = 2, source = None\<rparr>]
   \<and> key_inv (store_run [(\<lambda>i. now_a, Upsert ''k'' ''a'' None (Some ''2024-01-02T00:00:00Z'')),
                          (\<lambda>i. now_a, Upsert ''k'' ''b'' None (Some ''2024-01-01T00:00:00Z''))] [])"
proof -
  have t: "strftime now_a = ''2026-11-04T12:00:00Z''" by code_simp
  have a: "key_inv [row_at ''k'' ''2026-11-01T00:00:00Z'']"
    by (simp add: key_inv_def row_at_def)
  have a': "time_inv [row_at ''k'' ''2026-11-01T00:00:00Z'']"
    by (simp add: time_inv_def row_at_def)
  have b: "stamps_ok (\<lambda>i. now_a) [row_at ''k'' ''2026-11-01T00:00:00Z''] (Upsert ''k'' ''b'' None None)"
    by (simp add: stamps_ok_def row_at_def utc_now_str_def t)
  have c: "store_step (\<lambda>i. now_a) [row_at ''k'' ''2026-11-01T00:00:00Z''] (Upsert ''k'' ''b'' None None)
       = [\<lparr>key = ''k'', raw = ''b'', first_seen = ''2026-11-01T00:00:00Z'',
            last_seen = ''2026-11-04T12:00:00Z'', fail_count = 2, source = None\<rparr>]"
    by (simp add: upsert_notworker_def sqlite_add1_def row_at_def utc_now_str_def t)
  have d: "store_run [(\<lambda>i. now_a, Upsert ''k'' ''a'' None (Some ''2024-01-02T00:00:00Z'')),
                     (\<lambda>i. now_a, Upsert ''k'' ''b'' None (Some ''2024-01-01T00:00:00Z''))] []
       = [\<lparr>key = ''k'', raw = ''b'', first_seen = ''2024-01-02T00:00:00Z'',
            last_seen = ''2024-01-01T00:00:00Z'', fail_count = 2, source = None\<rparr>]"
    by (simp add: store_run_def upsert_notworker_def sqlite_add1_def Let_def)
  show ?thesis
    using a a' b c d
      store_invariant_preserved [where conn = "[row_at ''k'' ''2026-11-01T00:00:00Z'']"
        and op = "Upsert ''k'' ''b'' None None" and clock = "\<lambda>i. now_a"
        and steps = "[(\<lambda>i. now_a, Upsert ''k'' ''a'' None (Some ''2024-01-02T00:00:00Z'')),
                     (\<lambda>i. now_a, Upsert ''k'' ''b'' None (Some ''2024-01-01T00:00:00Z''))]"]
    by simp
qed

text \<open>
  The claim as it was stated fails: an upsert whose observation time is earlier than the
  \<^verbatim>\<open>first_seen\<close> of the entry takes a store that satisfies the invariant to one where
  \<^verbatim>\<open>last_seen\<close> is before \<^verbatim>\<open>first_seen\<close>. And the count of a key starts again at 1
  when its entry has been deleted in between: a key with \<^verbatim>\<open>fail_count\<close> 2 that expires and
  fails once more has \<^verbatim>\<open>fail_count\<close> 1.
\<close>

theorem store_invariant_counterexample:
  "store_inv (store_step (\<lambda>i. now_a) [] (Upsert ''k'' ''a'' None (Some ''2024-01-02T00:00:00Z'')))
   \<and> \<not> store_inv
         (store_step (\<lambda>i. now_a)
            (store_step (\<lambda>i. now_a) [] (Upsert ''k'' ''a'' None (Some ''2024-01-02T00:00:00Z'')))
            (Upsert ''k'' ''b'' None (Some ''2024-01-01T00:00:00Z'')))
   \<and> map fail_count
         (store_step (\<lambda>i. now_a)
            (store_step (\<lambda>i. now_a) [] (Upsert ''k'' ''a'' None (Some ''2024-01-02T00:00:00Z'')))
            (Upsert ''k'' ''b'' None (Some ''2024-01-03T00:00:00Z''))) = [2]
   \<and> map fail_count
         (store_step (\<lambda>i. now_a)
            (store_step (\<lambda>i. now_a)
               (store_step (\<lambda>i. now_a)
                  (store_step (\<lambda>i. now_a) []
                     (Upsert ''k'' ''a'' None (Some ''2024-01-02T00:00:00Z'')))
                  (Upsert ''k'' ''b'' None (Some ''2024-01-03T00:00:00Z'')))
               (Expire 30))
            (Upsert ''k'' ''c'' None None)) = [1]"
  by code_simp









end
